theory Spec2Isabelle
  imports Main "HOL-Library.Product_Lexorder"
begin

section \<open>Shard sizes of a time-series database: the model\<close>

text \<open>
  The program (\<^verbatim>\<open>measure_shards_size.py\<close>, class \<^verbatim>\<open>Client\<close>) reads the byte size of every
  shard directory from the output of a remote \<^verbatim>\<open>du\<close>, reads the shards' metadata from the
  database, and prints the size per database and in total. The remote shell and the
  database query are outside the model: it takes the lines of the remote command's
  standard output and the groups of the query's result as inputs. Strings are lists of
  characters with code points below 256. Every exception the code can raise is a value
  of \<open>error\<close>. Where the versions of the language differ (the white space of a text
  pattern, the rounding of a tie, the text of a float) the model follows Python 3.
\<close>

datatype error = AttributeError | IndexError | ValueError | OverflowError
  | UnboundLocalError | TypeError

subsection \<open>The regular expression of \<^verbatim>\<open>_parse_du\<close>\<close>

text \<open>
  \<^verbatim>\<open>[0-9]\<close> is the ten ASCII digits. \<^verbatim>\<open>\s\<close> on a text pattern is the interpreter's
  white space: code points 9 to 13, 28 to 32, 133 and 160 among those below 256.
  \<^verbatim>\<open>.\<close> is every character but the line feed.
\<close>

definition is_digit :: "char \<Rightarrow> bool" where
  "is_digit c = (c \<in> set ''0123456789'')"

definition is_space :: "char \<Rightarrow> bool" where
  "is_space c = (of_char c \<in> {9, 10, 11, 12, 13, 28, 29, 30, 31, 32, 133, 160 :: nat})"

datatype cclass = Digit | Space | Dot | Lit char

datatype quant = Once | Star | Plus

text \<open>An atom is a character class, its quantifier and the group that captures it.\<close>

datatype atom = Atom cclass quant "nat option"

fun cmatch :: "cclass \<Rightarrow> char \<Rightarrow> bool" where
  "cmatch Digit c = is_digit c"
| "cmatch Space c = is_space c"
| "cmatch Dot c = (c \<noteq> CHR 0x0A)"
| "cmatch (Lit d) c = (c = d)"

fun capture :: "nat option \<Rightarrow> string \<Rightarrow> (nat \<times> string) list \<Rightarrow> (nat \<times> string) list" where
  "capture None w caps = caps"
| "capture (Some g) w caps = (g, w) # caps"

text \<open>
  \<^verbatim>\<open>re.match\<close> on a sequence of atoms: the match starts at the first character and need
  not reach the last. A quantified atom is greedy: \<open>star\<close> takes every character it can
  and gives them back one at a time, the longest first, until the rest of the pattern
  matches; \<open>acc\<close> is what the atom has taken so far.
\<close>

function rmatch :: "atom list \<Rightarrow> string \<Rightarrow> (nat \<times> string) list option"
  and star :: "cclass \<Rightarrow> nat option \<Rightarrow> atom list \<Rightarrow> string \<Rightarrow> string
                 \<Rightarrow> (nat \<times> string) list option"
where
  "rmatch [] s = Some []"
| "rmatch (Atom c Once g # rs) s =
     (case s of [] \<Rightarrow> None
      | x # xs \<Rightarrow> if cmatch c x then map_option (capture g [x]) (rmatch rs xs) else None)"
| "rmatch (Atom c Star g # rs) s = star c g rs [] s"
| "rmatch (Atom c Plus g # rs) s =
     (case s of [] \<Rightarrow> None
      | x # xs \<Rightarrow> if cmatch c x then star c g rs [x] xs else None)"
| "star c g rs acc [] = map_option (capture g acc) (rmatch rs [])"
| "star c g rs acc (x # xs) =
     (if cmatch c x
      then (case star c g rs (acc @ [x]) xs of
              Some r \<Rightarrow> Some r
            | None \<Rightarrow> map_option (capture g acc) (rmatch rs (x # xs)))
      else map_option (capture g acc) (rmatch rs (x # xs)))"
  by pat_completeness auto
termination
  by (relation "measures
        [\<lambda>v. case v of Inl (rs, s) \<Rightarrow> 2 * length rs
                      | Inr (c, g, rs, acc, s) \<Rightarrow> 2 * length rs + 1,
         \<lambda>v. case v of Inl (rs, s) \<Rightarrow> length s
                      | Inr (c, g, rs, acc, s) \<Rightarrow> length s]") auto

text \<open>\<^verbatim>\<open>([0-9]+)\s+.*/([0-9]+)\<close>\<close>

definition du_regexp :: "atom list" where
  "du_regexp = [Atom Digit Plus (Some 1), Atom Space Plus None, Atom Dot Star None,
                Atom (Lit CHR ''/'') Once None, Atom Digit Plus (Some 2)]"

text \<open>The pattern after the white space.\<close>

definition du_tail :: "atom list" where
  "du_tail = [Atom Dot Star None, Atom (Lit CHR ''/'') Once None, Atom Digit Plus (Some 2)]"

text \<open>\<^verbatim>\<open>int\<close> of a run of ASCII digits (no limit on the number of digits is modelled).\<close>

definition digit_val :: "char \<Rightarrow> int" where
  "digit_val c = of_char c - 48"

definition int_of_str :: "string \<Rightarrow> int" where
  "int_of_str s = foldl (\<lambda>a c. 10 * a + digit_val c) 0 s"

text \<open>
  \<^verbatim>\<open>_parse_du\<close>: \<^verbatim>\<open>re.match\<close> returns \<^verbatim>\<open>None\<close> when the line does not match, and
  \<^verbatim>\<open>r.group(2)\<close> on \<^verbatim>\<open>None\<close> raises \<^verbatim>\<open>AttributeError\<close>. The result is the pair of the
  shard id and the byte size.
\<close>

definition parse_du :: "string \<Rightarrow> error + (int \<times> int)" where
  "parse_du line =
     (case rmatch du_regexp line of
        None \<Rightarrow> Inl AttributeError
      | Some caps \<Rightarrow>
          (case (map_of caps 2, map_of caps 1) of
             (Some g2, Some g1) \<Rightarrow> Inr (int_of_str g2, int_of_str g1)
           | _ \<Rightarrow> Inl TypeError))"

text \<open>
  What the pattern's tail \<^verbatim>\<open>.*/([0-9]+)\<close> captures, written by recursion on the text: the
  digits after the last \<^verbatim>\<open>/\<close> that a digit follows, before the first line feed. It is
  proved equal to \<open>rmatch\<close> on the tail below.
\<close>

fun find_id :: "string \<Rightarrow> string option" where
  "find_id [] = None"
| "find_id (x # xs) =
     (if x = CHR 0x0A then None
      else (case find_id xs of
              Some g \<Rightarrow> Some g
            | None \<Rightarrow> if x = CHR ''/'' \<and> xs \<noteq> [] \<and> is_digit (hd xs)
                      then Some (takeWhile is_digit xs) else None))"

subsection \<open>The collector\<close>

text \<open>
  The loop of \<^verbatim>\<open>_get_all_shards_size\<close> over \<^verbatim>\<open>stdout.readlines()\<close>: each line is parsed
  and stored in the dictionary \<^verbatim>\<open>shards_size_list\<close>. Nothing catches what \<^verbatim>\<open>_parse_du\<close>
  raises.
\<close>

fun get_all_shards_size :: "string list \<Rightarrow> (int \<rightharpoonup> int) \<Rightarrow> error + (int \<rightharpoonup> int)" where
  "get_all_shards_size [] m = Inr m"
| "get_all_shards_size (line # lines) m =
     (case parse_du line of
        Inl e \<Rightarrow> Inl e
      | Inr (shard_id, size_bytes) \<Rightarrow> get_all_shards_size lines (m(shard_id \<mapsto> size_bytes)))"

text \<open>
  A line is well formed when the pattern matches it. \<open>store_line\<close> is one turn of a
  collector that would skip the other lines, and \<open>line_id\<close> the shard id a line reports.
\<close>

definition well_formed :: "string \<Rightarrow> bool" where
  "well_formed line = (rmatch du_regexp line \<noteq> None)"

definition store_line :: "(int \<rightharpoonup> int) \<Rightarrow> string \<Rightarrow> (int \<rightharpoonup> int)" where
  "store_line m line = (case parse_du line of Inl e \<Rightarrow> m | Inr (k, v) \<Rightarrow> m(k \<mapsto> v))"

definition line_id :: "string \<Rightarrow> int option" where
  "line_id line = (case parse_du line of Inl e \<Rightarrow> None | Inr (k, v) \<Rightarrow> Some k)"

subsection \<open>The size formatter\<close>

definition size_name :: "string list" where
  "size_name = [''B'', ''KB'', ''MB'', ''GB'', ''TB'', ''PB'', ''EB'', ''ZB'', ''YB'']"

text \<open>
  \<^verbatim>\<open>int(math.floor(math.log(size_bytes, 1024)))\<close> is computed in double precision: the
  count is rounded to a double, its natural logarithm is rounded to a double and divided
  by the double nearest to \<open>ln 1024\<close>, and the quotient is rounded to a double. The
  quotient is \<open>k\<close> or more from \<open>1024 ^ k\<close> on, and from the fifth power on already a
  little below it, where the rounding lifts the quotient to \<open>k\<close>: \<open>log_cut k\<close> is the least
  count whose index is \<open>k\<close> or more, \<open>slack k\<close> below \<open>1024 ^ k\<close>. From \<open>log_cut 9\<close> on the
  index is 9 or more, past the last unit, and the exact logarithm \<open>floor_log\<close> stands for
  it there: the result of \<^verbatim>\<open>_size\<close> is the same for every such index.
\<close>

fun floor_log :: "nat \<Rightarrow> nat" where
  "floor_log n = (if n < 1024 then 0 else Suc (floor_log (n div 1024)))"

definition slack :: "nat \<Rightarrow> nat" where
  "slack k =
     (if k < 10
      then [0, 0, 0, 0, 0, 3, 6208, 1114112, 4362076160, 7765300871168] ! k
      else 0)"

definition log_cut :: "nat \<Rightarrow> nat" where
  "log_cut k = 1024 ^ k - slack k"

definition magnitude :: "nat \<Rightarrow> nat" where
  "magnitude n =
     (if n < log_cut 1 then 0
      else if n < log_cut 2 then 1
      else if n < log_cut 3 then 2
      else if n < log_cut 4 then 3
      else if n < log_cut 5 then 4
      else if n < log_cut 6 then 5
      else if n < log_cut 7 then 6
      else if n < log_cut 8 then 7
      else if n < log_cut 9 then 8
      else 9 + floor_log (n div 1024 ^ 9))"

fun bit_length :: "nat \<Rightarrow> nat" where
  "bit_length n = (if n = 0 then 0 else Suc (bit_length (n div 2)))"

text \<open>The integer nearest to \<open>a / b\<close>, a tie going to the even one.\<close>

definition round_half_even :: "nat \<Rightarrow> nat \<Rightarrow> nat" where
  "round_half_even a b =
     (let q = a div b; r = a mod b
      in if 2 * r < b then q else if b < 2 * r then q + 1 else if even q then q else q + 1)"

text \<open>
  The conversion of an integer to a double in \<^verbatim>\<open>size_bytes/p\<close>: 53 significant bits, a
  tie to even, and \<^verbatim>\<open>OverflowError\<close> (\<open>None\<close>) when the result does not fit.
\<close>

definition float_of_int :: "nat \<Rightarrow> nat option" where
  "float_of_int n =
     (let e = bit_length n - 53; m = round_half_even n (2 ^ e) * 2 ^ e
      in if m < 2 ^ 1024 then Some m else None)"

fun show_nat :: "nat \<Rightarrow> string" where
  "show_nat n = (if n < 10 then [''0123456789'' ! n]
                 else show_nat (n div 10) @ [''0123456789'' ! (n mod 10)])"

text \<open>
  The text of the double nearest to \<open>h / 100\<close>, as \<^verbatim>\<open>'%s'\<close> renders the result of
  \<^verbatim>\<open>round(x, 2)\<close>: the shortest decimal that denotes it, with at least one digit after
  the point.
\<close>

definition float_str :: "nat \<Rightarrow> string" where
  "float_str h =
     show_nat (h div 100) @ ''.'' @
     (if h mod 10 = 0 then show_nat (h mod 100 div 10)
      else show_nat (h mod 100 div 10) @ show_nat (h mod 10))"

text \<open>
  \<^verbatim>\<open>_size\<close>. \<^verbatim>\<open>math.log\<close> raises \<^verbatim>\<open>ValueError\<close> below zero; \<^verbatim>\<open>math.pow(1024, i)\<close>
  raises \<^verbatim>\<open>OverflowError\<close> from \<open>i = 103\<close>; the division is exact, its divisor being a power
  of two; \<^verbatim>\<open>round\<close> rounds the quotient to two decimals, a tie to even;
  \<^verbatim>\<open>size_name[i]\<close> raises \<^verbatim>\<open>IndexError\<close> past the last unit.
\<close>

definition size_str :: "int \<Rightarrow> error + string" where
  "size_str size_bytes =
     (if size_bytes = 0 then Inr ''0B''
      else if size_bytes < 0 then Inl ValueError
      else let i = magnitude (nat size_bytes)
           in if 103 \<le> i then Inl OverflowError
              else (case float_of_int (nat size_bytes) of
                      None \<Rightarrow> Inl OverflowError
                    | Some m \<Rightarrow>
                        if i < length size_name
                        then Inr (float_str (round_half_even (m * 100) (1024 ^ i))
                                  @ '' '' @ size_name ! i)
                        else Inl IndexError))"

subsection \<open>The aggregation\<close>

text \<open>
  A \<^verbatim>\<open>datetime\<close> is its fields from the year to the second, compared from left to right.
  A shard record is one point of the query's result after \<^verbatim>\<open>strptime\<close>: a time is \<open>None\<close>
  when its text does not parse, which raises \<^verbatim>\<open>ValueError\<close>.
\<close>

type_synonym datetime = "nat \<times> nat \<times> nat \<times> nat \<times> nat \<times> nat"

record shard =
  shard_id :: int
  shard_database :: string
  start_time :: "datetime option"
  end_time :: "datetime option"

record client =
  influx_db :: "string option"
  shards_size_list :: "int \<rightharpoonup> int"

record args =
  from_date :: datetime
  to_date :: datetime
  full :: bool

datatype diag = ShardMissing int

datatype result_line =
    DatabaseSizeResult string string int
  | GrandTotal string int

record run_state =
  database :: "string option"
  total_size :: int
  printed :: "result_line list"
  debug_log :: "diag list"

text \<open>The truth value of \<^verbatim>\<open>self.influx_db\<close>: neither \<^verbatim>\<open>None\<close> nor the empty string.\<close>

definition filter_set :: "client \<Rightarrow> bool" where
  "filter_set self = (case influx_db self of None \<Rightarrow> False | Some f \<Rightarrow> f \<noteq> [])"

definition get_shard_size :: "client \<Rightarrow> int \<Rightarrow> int option" where
  "get_shard_size self k = shards_size_list self k"

text \<open>
  One turn of the loop over a group's shards. Adding the \<^verbatim>\<open>None\<close> of a missing shard
  raises \<^verbatim>\<open>TypeError\<close>, which the \<^verbatim>\<open>except\<close> clause turns into a debug message.
\<close>

definition shard_step :: "client \<Rightarrow> args \<Rightarrow> shard \<Rightarrow> int \<times> diag list \<Rightarrow> error + (int \<times> diag list)" where
  "shard_step self a s st =
     (case (start_time s, end_time s) of
        (Some shard_start_time, Some shard_end_time) \<Rightarrow>
          if shard_start_time < from_date a then Inr st
          else if to_date a < shard_end_time then Inr st
          else (case get_shard_size self (shard_id s) of
                  Some b \<Rightarrow> Inr (fst st + b, snd st)
                | None \<Rightarrow> Inr (fst st, snd st @ [ShardMissing (shard_id s)]))
      | _ \<Rightarrow> Inl ValueError)"

fun shard_loop :: "client \<Rightarrow> args \<Rightarrow> shard list \<Rightarrow> int \<times> diag list \<Rightarrow> error + (int \<times> diag list)" where
  "shard_loop self a [] st = Inr st"
| "shard_loop self a (s # ss) st =
     (case shard_step self a s st of
        Inl e \<Rightarrow> Inl e
      | Inr st' \<Rightarrow> shard_loop self a ss st')"

text \<open>
  One turn of the loop over the groups. \<^verbatim>\<open>group[0]\<close> of an empty group raises
  \<^verbatim>\<open>IndexError\<close>, which is caught and passed over, so that \<^verbatim>\<open>database\<close> keeps the value of
  the turn before, or stays unbound (\<open>None\<close>); reading it unbound raises
  \<^verbatim>\<open>UnboundLocalError\<close>. The arguments of the \<^verbatim>\<open>print\<close> are evaluated from left to right.
\<close>

definition bound_database :: "run_state \<Rightarrow> shard list \<Rightarrow> string option" where
  "bound_database st grp =
     (case grp of [] \<Rightarrow> database st | s # _ \<Rightarrow> Some (shard_database s))"

definition group_step :: "client \<Rightarrow> args \<Rightarrow> run_state \<Rightarrow> shard list \<Rightarrow> error + run_state" where
  "group_step self a st grp =
     (let db = bound_database st grp;
          st1 = st\<lparr>database := db\<rparr>
      in if filter_set self \<and> db = None then Inl UnboundLocalError
         else if filter_set self \<and> db \<noteq> influx_db self then Inr st1
         else (case shard_loop self a grp (0, debug_log st1) of
                 Inl e \<Rightarrow> Inl e
               | Inr (shard_size, log) \<Rightarrow>
                   if full a \<or> filter_set self
                   then (case size_str shard_size of
                           Inl e \<Rightarrow> Inl e
                         | Inr txt \<Rightarrow>
                             (case db of
                                None \<Rightarrow> Inl UnboundLocalError
                              | Some d \<Rightarrow>
                                  Inr (st1\<lparr>total_size := total_size st1 + shard_size,
                                           printed := printed st1 @
                                             [DatabaseSizeResult (txt @ '': '' @ d) d shard_size],
                                           debug_log := log\<rparr>)))
                   else Inr (st1\<lparr>total_size := total_size st1 + shard_size,
                                 debug_log := log\<rparr>)))"

fun group_loop :: "client \<Rightarrow> args \<Rightarrow> shard list list \<Rightarrow> run_state \<Rightarrow> error + run_state" where
  "group_loop self a [] st = Inr st"
| "group_loop self a (grp # groups) st =
     (case group_step self a st grp of
        Inl e \<Rightarrow> Inl e
      | Inr st' \<Rightarrow> group_loop self a groups st')"

definition init_state :: run_state where
  "init_state = \<lparr>database = None, total_size = 0, printed = [], debug_log = []\<rparr>"

text \<open>The part of \<^verbatim>\<open>shards\<close> after the collection: the loop and the line of the total.\<close>

definition aggregate :: "client \<Rightarrow> args \<Rightarrow> shard list list \<Rightarrow> error + run_state" where
  "aggregate self a groups =
     (case group_loop self a groups init_state of
        Inl e \<Rightarrow> Inl e
      | Inr st \<Rightarrow>
          if \<not> filter_set self
          then (case size_str (total_size st) of
                  Inl e \<Rightarrow> Inl e
                | Inr txt \<Rightarrow>
                    Inr (st\<lparr>printed := printed st @
                              [GrandTotal (''TOTAL: '' @ txt) (total_size st)]\<rparr>))
          else Inr st)"

text \<open>\<^verbatim>\<open>shards\<close>: the collection from the remote output, then the aggregation.\<close>

definition shards :: "client \<Rightarrow> args \<Rightarrow> string list \<Rightarrow> shard list list \<Rightarrow> error + run_state" where
  "shards self a stdout groups =
     (case get_all_shards_size stdout (shards_size_list self) of
        Inl e \<Rightarrow> Inl e
      | Inr idx \<Rightarrow> aggregate (self\<lparr>shards_size_list := idx\<rparr>) a groups)"

text \<open>
  The text and the bytes of the lines printed; \<open>emitted_sum\<close> adds the bytes of the lines
  printed for a database.
\<close>

fun line_text :: "result_line \<Rightarrow> string" where
  "line_text (DatabaseSizeResult t d b) = t"
| "line_text (GrandTotal t b) = t"

fun total_bytes :: "result_line \<Rightarrow> int" where
  "total_bytes (DatabaseSizeResult t d b) = b"
| "total_bytes (GrandTotal t b) = b"

fun is_total :: "result_line \<Rightarrow> bool" where
  "is_total (DatabaseSizeResult t d b) = False"
| "is_total (GrandTotal t b) = True"

definition emitted_sum :: "result_line list \<Rightarrow> int" where
  "emitted_sum ls = sum_list (map total_bytes (filter (\<lambda>l. \<not> is_total l) ls))"

text \<open>
  The \<^verbatim>\<open>continue\<close> of a group whose database is not the one asked for.
\<close>

definition skipped :: "client \<Rightarrow> string option \<Rightarrow> bool" where
  "skipped self db = (filter_set self \<and> db \<noteq> influx_db self)"

text \<open>
  What a shard adds to the size of its group: its size in the index when its window lies
  within the window asked for, both ends included, and nothing otherwise. \<open>missing\<close> is
  the debug message it leaves when it is in the window and not in the index.
\<close>

definition in_window :: "args \<Rightarrow> shard \<Rightarrow> bool" where
  "in_window a s =
     (case (start_time s, end_time s) of
        (Some b, Some e) \<Rightarrow> from_date a \<le> b \<and> e \<le> to_date a
      | _ \<Rightarrow> False)"

definition contribution :: "client \<Rightarrow> args \<Rightarrow> shard \<Rightarrow> int" where
  "contribution self a s =
     (if in_window a s
      then (case shards_size_list self (shard_id s) of None \<Rightarrow> 0 | Some b \<Rightarrow> b)
      else 0)"

definition missing :: "client \<Rightarrow> args \<Rightarrow> shard \<Rightarrow> diag list" where
  "missing self a s =
     (if in_window a s \<and> shards_size_list self (shard_id s) = None
      then [ShardMissing (shard_id s)] else [])"

definition parses :: "shard \<Rightarrow> bool" where
  "parses s = (start_time s \<noteq> None \<and> end_time s \<noteq> None)"

text \<open>Two states of a run that differ at most in their debug messages.\<close>

definition same_report :: "run_state \<Rightarrow> run_state \<Rightarrow> bool" where
  "same_report st st2 =
     (database st = database st2 \<and> total_size st = total_size st2 \<and> printed st = printed st2)"

subsection \<open>A small run\<close>

text \<open>
  One database with a shard of January 2020, 2048 bytes on disk, and a shard of January
  2021 that is not on disk; the window asked for is the year 2020.
\<close>

definition shard_10 :: shard where
  "shard_10 = \<lparr>shard_id = 10, shard_database = ''metrics'',
                start_time = Some (2020, 1, 1, 0, 0, 0), end_time = Some (2020, 2, 1, 0, 0, 0)\<rparr>"

definition shard_11 :: shard where
  "shard_11 = \<lparr>shard_id = 11, shard_database = ''metrics'',
                start_time = Some (2021, 1, 1, 0, 0, 0), end_time = Some (2021, 2, 1, 0, 0, 0)\<rparr>"

definition shard_12 :: shard where
  "shard_12 = \<lparr>shard_id = 12, shard_database = ''metrics'',
                start_time = Some (2020, 3, 1, 0, 0, 0), end_time = Some (2020, 4, 1, 0, 0, 0)\<rparr>"

definition year_2020 :: "bool \<Rightarrow> args" where
  "year_2020 f = \<lparr>from_date = (2020, 1, 1, 0, 0, 0), to_date = (2020, 12, 31, 0, 0, 0), full = f\<rparr>"

definition one_shard_on_disk :: "string option \<Rightarrow> client" where
  "one_shard_on_disk db = \<lparr>influx_db = db, shards_size_list = [10 \<mapsto> 2048]\<rparr>"

declare floor_log.simps [simp del]
declare bit_length.simps [simp del]
declare show_nat.simps [simp del]

section \<open>The pattern of \<^verbatim>\<open>_parse_du\<close>, read off the text\<close>

lemma digit_not_space: "is_digit x \<Longrightarrow> \<not> is_space x"
  by (auto simp: is_digit_def is_space_def)

lemma slash_not_space: "\<not> is_space (CHR ''/'')"
  by (simp add: is_space_def)

lemma capture_None: "map_option (capture None w) r = r"
  by (cases r) simp_all

lemma capture_Some: "map_option (capture (Some g) w) r = map_option ((#) (g, w)) r"
  by (cases r) simp_all

lemma star_digit_end: "star Digit (Some g) [] acc s = Some [(g, acc @ takeWhile is_digit s)]"
  by (induction s arbitrary: acc) auto

lemma star_no_group: "star c None rs acc s = star c None rs [] s"
proof (induction s arbitrary: acc)
  case Nil
  show ?case by (simp add: capture_None)
next
  case (Cons x xs)
  have "star c None rs (acc @ [x]) xs = star c None rs [] xs"
    by (rule Cons.IH)
  moreover have "star c None rs ([] @ [x]) xs = star c None rs [] xs"
    by (rule Cons.IH)
  ultimately show ?case by (simp add: capture_None split: option.splits)
qed

lemma rmatch_slash_id:
  "rmatch [Atom (Lit CHR ''/'') Once None, Atom Digit Plus (Some 2)] (x # xs) =
     (if x = CHR ''/'' \<and> xs \<noteq> [] \<and> is_digit (hd xs)
      then Some [(2, takeWhile is_digit xs)] else None)"
  by (cases xs) (auto simp: star_digit_end)

lemma rmatch_du_tail: "rmatch du_tail s = map_option (\<lambda>g. [(2, g)]) (find_id s)"
proof (induction s)
  case Nil
  show ?case by (simp add: du_tail_def)
next
  case (Cons x xs)
  let ?rs = "[Atom (Lit CHR ''/'') Once None, Atom Digit Plus (Some 2)]"
  have ih: "star Dot None ?rs [x] xs = map_option (\<lambda>g. [(2, g)]) (find_id xs)"
    using Cons.IH star_no_group [of Dot ?rs "[x]" xs] by (simp add: du_tail_def)
  have "rmatch du_tail (x # xs) = star Dot None ?rs [] (x # xs)"
    by (simp add: du_tail_def)
  also have "\<dots> = map_option (\<lambda>g. [(2, g)]) (find_id (x # xs))"
  proof (cases "x = CHR 0x0A")
    case True
    then show ?thesis by simp
  next
    case False
    then show ?thesis
      using ih rmatch_slash_id [of x xs]
      by (cases "find_id xs") (simp_all add: capture_None)
  qed
  finally show ?case .
qed

lemma find_id_space:
  assumes "is_space x" and "find_id (x # r) = Some g"
  shows "find_id r = Some g"
proof -
  have "x \<noteq> CHR ''/''"
    using assms(1) slash_not_space by auto
  then show ?thesis
    using assms(2) by (cases "find_id r") (simp_all split: if_splits)
qed

lemma find_id_dropWhile: "find_id s = Some g \<Longrightarrow> find_id (dropWhile is_space s) = Some g"
proof (induction s)
  case Nil
  then show ?case by simp
next
  case (Cons x xs)
  show ?case
  proof (cases "is_space x")
    case True
    have "find_id xs = Some g"
      using True Cons.prems by (rule find_id_space)
    then have "find_id (dropWhile is_space xs) = Some g"
      by (rule Cons.IH)
    then show ?thesis using True by simp
  next
    case False
    then have "dropWhile is_space (x # xs) = x # xs" by simp
    then show ?thesis using Cons.prems by (simp only:)
  qed
qed

lemma star_space: "star Space None du_tail acc s = rmatch du_tail (dropWhile is_space s)"
proof (induction s arbitrary: acc)
  case Nil
  show ?case by (simp add: capture_None)
next
  case (Cons x xs)
  show ?case
  proof (cases "is_space x")
    case False
    then show ?thesis by (simp add: capture_None)
  next
    case True
    show ?thesis
    proof (cases "rmatch du_tail (dropWhile is_space xs)")
      case (Some r)
      then show ?thesis using True Cons.IH [of "acc @ [x]"] by simp
    next
      case None
      have "find_id (x # xs) = None"
      proof (rule ccontr)
        assume "find_id (x # xs) \<noteq> None"
        then obtain g where "find_id (x # xs) = Some g" by auto
        then have "find_id (dropWhile is_space (x # xs)) = Some g"
          by (rule find_id_dropWhile)
        then show False using None True by (simp add: rmatch_du_tail)
      qed
      then have "rmatch du_tail (x # xs) = None"
        by (simp only: rmatch_du_tail option.map)
      then show ?thesis using True None Cons.IH [of "acc @ [x]"] by simp
    qed
  qed
qed

lemma rmatch_space_tail:
  "rmatch (Atom Space Plus None # du_tail) s =
     (if s \<noteq> [] \<and> is_space (hd s) then rmatch du_tail (dropWhile is_space s) else None)"
  by (cases s) (auto simp: star_space)

lemma star_digit_space:
  "star Digit (Some g) (Atom Space Plus None # du_tail) acc s =
     map_option ((#) (g, acc @ takeWhile is_digit s))
       (rmatch (Atom Space Plus None # du_tail) (dropWhile is_digit s))"
proof (induction s arbitrary: acc)
  case Nil
  show ?case by (simp add: rmatch_space_tail)
next
  case (Cons x xs)
  show ?case
  proof (cases "is_digit x")
    case False
    then show ?thesis
      by (simp add: capture_Some del: rmatch.simps)
  next
    case True
    then have "rmatch (Atom Space Plus None # du_tail) (x # xs) = None"
      using digit_not_space by (simp add: rmatch_space_tail del: rmatch.simps)
    then show ?thesis using True Cons.IH [of "acc @ [x]"]
      by (simp del: rmatch.simps split: option.splits)
  qed
qed

lemma rmatch_du_regexp:
  "rmatch du_regexp line =
     (let r1 = dropWhile is_digit line
      in if takeWhile is_digit line = [] \<or> r1 = [] \<or> \<not> is_space (hd r1) then None
         else map_option (\<lambda>g2. [(1, takeWhile is_digit line), (2, g2)])
                (find_id (dropWhile is_space r1)))"
proof (cases line)
  case Nil
  then show ?thesis by (simp add: du_regexp_def)
next
  case (Cons x xs)
  have unfold: "du_regexp = Atom Digit Plus (Some 1) # Atom Space Plus None # du_tail"
    by (simp add: du_regexp_def du_tail_def)
  show ?thesis
  proof (cases "is_digit x")
    case False
    then show ?thesis using Cons by (simp add: unfold del: star.simps)
  next
    case True
    have "rmatch du_regexp line = star Digit (Some 1) (Atom Space Plus None # du_tail) [x] xs"
      using Cons True by (simp add: unfold del: star.simps)
    also have "\<dots> = map_option ((#) (1, x # takeWhile is_digit xs))
        (rmatch (Atom Space Plus None # du_tail) (dropWhile is_digit xs))"
      by (simp add: star_digit_space del: star.simps rmatch.simps)
    finally show ?thesis using Cons True
      by (simp add: rmatch_space_tail rmatch_du_tail Let_def option.map_comp comp_def
          del: star.simps rmatch.simps)
  qed
qed

lemma parse_du_eq:
  "parse_du line =
     (let r1 = dropWhile is_digit line
      in if takeWhile is_digit line = [] \<or> r1 = [] \<or> \<not> is_space (hd r1) then Inl AttributeError
         else (case find_id (dropWhile is_space r1) of
                 None \<Rightarrow> Inl AttributeError
               | Some g2 \<Rightarrow> Inr (int_of_str g2, int_of_str (takeWhile is_digit line))))"
  by (simp add: parse_du_def rmatch_du_regexp Let_def split: option.splits)

section \<open>The parser and the collector\<close>

lemma takeWhile_append_none:
  "\<forall>c\<in>set t. \<not> P c \<Longrightarrow> takeWhile P (xs @ t) = takeWhile P xs"
  by (induction xs) (auto simp: takeWhile_eq_Nil_iff)

lemma find_id_no_digit: "\<forall>c\<in>set t. \<not> is_digit c \<Longrightarrow> find_id t = None"
proof (induction t)
  case Nil
  show ?case by simp
next
  case (Cons x t)
  then have "find_id t = None" by simp
  moreover have "t \<noteq> [] \<Longrightarrow> \<not> is_digit (hd t)"
    using Cons.prems by simp
  ultimately show ?case by auto
qed

lemma find_id_append_None:
  assumes "\<forall>c\<in>set t. \<not> is_digit c"
  shows "find_id s = None \<Longrightarrow> find_id (s @ t) = None"
proof (induction s)
  case Nil
  show ?case using assms by (simp add: find_id_no_digit)
next
  case (Cons x xs)
  show ?case
  proof (cases "x = CHR 0x0A")
    case True
    then show ?thesis by simp
  next
    case False
    from Cons.prems False have none: "find_id xs = None"
      by (simp split: option.splits)
    from Cons.prems False none have no: "\<not> (x = CHR ''/'' \<and> xs \<noteq> [] \<and> is_digit (hd xs))"
      by (simp split: if_splits)
    have "find_id (xs @ t) = None" using none by (rule Cons.IH)
    moreover have "\<not> (x = CHR ''/'' \<and> xs @ t \<noteq> [] \<and> is_digit (hd (xs @ t)))"
    proof (cases xs)
      case Nil
      then show ?thesis using assms by (cases t) simp_all
    next
      case (Cons y ys)
      then show ?thesis using no by simp
    qed
    ultimately show ?thesis using False by simp
  qed
qed

lemma find_id_append_Some:
  assumes "\<forall>c\<in>set t. \<not> is_digit c"
  shows "find_id s = Some g \<Longrightarrow> find_id (s @ t) = Some g"
proof (induction s)
  case Nil
  then show ?case by simp
next
  case (Cons x xs)
  from Cons.prems have nl: "x \<noteq> CHR 0x0A"
    by (simp split: if_splits)
  show ?case
  proof (cases "find_id xs")
    case (Some g')
    then have "g' = g" using Cons.prems nl by simp
    then have "find_id (xs @ t) = Some g" using Some Cons.IH by simp
    then show ?thesis using nl by simp
  next
    case None
    then have cond: "x = CHR ''/'' \<and> xs \<noteq> [] \<and> is_digit (hd xs)" and g: "g = takeWhile is_digit xs"
      using Cons.prems nl by (simp_all split: if_splits)
    have "find_id (xs @ t) = None"
      using assms None by (rule find_id_append_None)
    moreover have "takeWhile is_digit (xs @ t) = takeWhile is_digit xs"
      using assms by (rule takeWhile_append_none)
    moreover have "hd (xs @ t) = hd xs" using cond by simp
    ultimately show ?thesis using nl cond g by simp
  qed
qed

text \<open>
  Claim C10. A line that parses still parses, to the same shard id and byte size, when
  characters that are not digits are appended to it (the carriage return and line feed
  that the terminal leaves at the end of each line, for instance): the pattern is not
  anchored at the end of the line.
\<close>

theorem parse_du_trailing:
  assumes "parse_du p = Inr r" and "\<forall>c\<in>set t. \<not> is_digit c"
  shows "parse_du (p @ t) = Inr r"
proof -
  let ?r1 = "dropWhile is_digit p"
  let ?r2 = "dropWhile is_space ?r1"
  from assms(1) have g1: "takeWhile is_digit p \<noteq> []" and r1: "?r1 \<noteq> []"
    and sp: "is_space (hd ?r1)"
    by (simp_all add: parse_du_eq Let_def split: if_splits)
  from g1 r1 sp have eq: "parse_du p =
      (case find_id ?r2 of None \<Rightarrow> Inl AttributeError
       | Some g2 \<Rightarrow> Inr (int_of_str g2, int_of_str (takeWhile is_digit p)))"
    by (auto simp add: parse_du_eq Let_def)
  with assms(1) obtain g2 where g2: "find_id ?r2 = Some g2"
    and r: "r = (int_of_str g2, int_of_str (takeWhile is_digit p))"
    by (cases "find_id ?r2") auto
  have nd: "hd ?r1 \<in> set p" "\<not> is_digit (hd ?r1)"
    using set_dropWhileD [OF hd_in_set [OF r1]] hd_dropWhile [OF r1] by blast+
  have tw: "takeWhile is_digit (p @ t) = takeWhile is_digit p"
    using nd by (rule takeWhile_append1)
  have dw: "dropWhile is_digit (p @ t) = ?r1 @ t"
    using nd by (rule dropWhile_append1)
  have r2: "?r2 \<noteq> []"
  proof
    assume e: "?r2 = []"
    have "find_id ?r2 = None" unfolding e by simp
    with g2 show False by simp
  qed
  have ns: "hd ?r2 \<in> set ?r1" "\<not> is_space (hd ?r2)"
    using set_dropWhileD [OF hd_in_set [OF r2]] hd_dropWhile [OF r2] by blast+
  have dw2: "dropWhile is_space (?r1 @ t) = ?r2 @ t"
    using ns by (rule dropWhile_append1)
  have "find_id (?r2 @ t) = Some g2"
    using assms(2) g2 by (rule find_id_append_Some)
  moreover have "?r1 @ t \<noteq> []" "hd (?r1 @ t) = hd ?r1"
    using r1 by simp_all
  ultimately show ?thesis
    using g1 sp r unfolding parse_du_eq [of "p @ t"] tw dw dw2 Let_def
    by (simp del: dropWhile_eq_Nil_conv)
qed

theorem parse_du_trailing_witness:
  "parse_du ''23248   /opt/influxdb/data/ddbb/default/1939'' = Inr (1939, 23248)
   \<and> list_all (\<lambda>c. \<not> is_digit c) [CHR 0x0D, CHR 0x0A]
   \<and> parse_du (''23248   /opt/influxdb/data/ddbb/default/1939'' @ [CHR 0x0D, CHR 0x0A])
       = Inr (1939, 23248)"
proof -
  have p: "parse_du ''23248   /opt/influxdb/data/ddbb/default/1939'' = Inr (1939, 23248)"
    by code_simp
  have t: "\<forall>c\<in>set [CHR 0x0D, CHR 0x0A]. \<not> is_digit c"
    by (simp add: is_digit_def)
  show ?thesis using p t parse_du_trailing [OF p t] by simp
qed

lemma parse_du_malformed: "\<not> well_formed l \<Longrightarrow> parse_du l = Inl AttributeError"
  by (simp add: well_formed_def parse_du_def)

lemma parse_du_well_formed: "well_formed l \<Longrightarrow> \<exists>k v. parse_du l = Inr (k, v)"
  unfolding well_formed_def parse_du_def rmatch_du_regexp Let_def
  by (auto split: if_splits)

lemma get_all_shards_size_append:
  "get_all_shards_size (xs @ ys) m =
     (case get_all_shards_size xs m of Inl e \<Rightarrow> Inl e | Inr m' \<Rightarrow> get_all_shards_size ys m')"
  by (induction xs arbitrary: m) (auto split: sum.splits)

lemma get_all_shards_size_well_formed:
  "list_all well_formed ls \<Longrightarrow> get_all_shards_size ls m = Inr (foldl store_line m ls)"
proof (induction ls arbitrary: m)
  case Nil
  show ?case by simp
next
  case (Cons l ls)
  then obtain k v where kv: "parse_du l = Inr (k, v)"
    using parse_du_well_formed [of l] by auto
  have "get_all_shards_size ls (m(k \<mapsto> v)) = Inr (foldl store_line (m(k \<mapsto> v)) ls)"
    using Cons.prems by (intro Cons.IH) simp
  moreover have "store_line m l = m(k \<mapsto> v)"
    using kv by (simp add: store_line_def)
  ultimately show ?case using kv by simp
qed

lemma foldl_store_line_other:
  "\<forall>y\<in>set post. line_id y \<noteq> Some k \<Longrightarrow> foldl store_line m post k = m k"
proof (induction post arbitrary: m)
  case Nil
  show ?case by simp
next
  case (Cons y post)
  have "foldl store_line (store_line m y) post k = store_line m y k"
    using Cons.prems by (intro Cons.IH) simp
  moreover have "store_line m y k = m k"
    using Cons.prems by (auto simp: store_line_def line_id_def split: sum.splits)
  ultimately show ?case by simp
qed

text \<open>
  Claim C1, as the code has it. A line that the pattern does not match makes the parser
  raise \<^verbatim>\<open>AttributeError\<close>, and the collector does not catch it: the collection aborts
  with that error at the first such line, whatever follows. When every line is well
  formed the collection returns the index built from all of them, in order.
\<close>

theorem collection_aborts_at_malformed_line:
  "(\<not> well_formed l \<longrightarrow> parse_du l = Inl AttributeError)
   \<and> (list_all well_formed pre \<and> \<not> well_formed l \<longrightarrow>
        get_all_shards_size (pre @ l # post) m = Inl AttributeError)
   \<and> (list_all well_formed ls \<longrightarrow>
        get_all_shards_size ls m = Inr (foldl store_line m ls))"
proof (intro conjI impI)
  assume "\<not> well_formed l"
  then show "parse_du l = Inl AttributeError" by (rule parse_du_malformed)
next
  assume a: "list_all well_formed pre \<and> \<not> well_formed l"
  then have "get_all_shards_size pre m = Inr (foldl store_line m pre)"
    by (simp add: get_all_shards_size_well_formed)
  moreover have "parse_du l = Inl AttributeError"
    using a by (simp add: parse_du_malformed)
  ultimately show "get_all_shards_size (pre @ l # post) m = Inl AttributeError"
    by (simp add: get_all_shards_size_append)
next
  assume "list_all well_formed ls"
  then show "get_all_shards_size ls m = Inr (foldl store_line m ls)"
    by (rule get_all_shards_size_well_formed)
qed

theorem collection_aborts_at_malformed_line_witness:
  "\<not> well_formed ''du: cannot read directory''
   \<and> parse_du ''du: cannot read directory'' = Inl AttributeError
   \<and> list_all well_formed [''23248 /var/lib/influxdb/data/db/rp/1939'']
   \<and> get_all_shards_size
        ([''23248 /var/lib/influxdb/data/db/rp/1939''] @ ''du: cannot read directory''
           # [''512 /var/lib/influxdb/data/db/rp/1940'']) Map.empty = Inl AttributeError
   \<and> get_all_shards_size [''23248 /var/lib/influxdb/data/db/rp/1939''] Map.empty
       = Inr (foldl store_line Map.empty [''23248 /var/lib/influxdb/data/db/rp/1939''])"
proof -
  have bad: "\<not> well_formed ''du: cannot read directory''"
    by (simp add: well_formed_def rmatch_du_regexp is_digit_def)
  have good: "list_all well_formed [''23248 /var/lib/influxdb/data/db/rp/1939'']"
    by (simp add: well_formed_def du_regexp_def is_digit_def is_space_def)
  show ?thesis
    using bad good
      collection_aborts_at_malformed_line
        [of "''du: cannot read directory''" "[''23248 /var/lib/influxdb/data/db/rp/1939'']"
            "[''512 /var/lib/influxdb/data/db/rp/1940'']" Map.empty
            "[''23248 /var/lib/influxdb/data/db/rp/1939'']"]
    by blast
qed

text \<open>
  Claim C1 as stated fails: with a line that does not parse between two that do, the
  collection returns no index at all, where skipping the line would have kept shard 1940.
\<close>

theorem collection_skips_malformed_counterexample:
  "get_all_shards_size
     [''23248 /var/lib/influxdb/data/db/rp/1939'',
      ''du: cannot read directory'',
      ''512 /var/lib/influxdb/data/db/rp/1940''] Map.empty = Inl AttributeError
   \<and> foldl store_line Map.empty
     [''23248 /var/lib/influxdb/data/db/rp/1939'',
      ''du: cannot read directory'',
      ''512 /var/lib/influxdb/data/db/rp/1940''] 1940 = Some 512"
  by (simp add: store_line_def parse_du_def du_regexp_def is_digit_def is_space_def
        int_of_str_def digit_val_def)

text \<open>
  Claim C9. When several well-formed lines report the same shard id, the index holds the
  size of the last of them: a later line overwrites an earlier one, nothing is raised and
  nothing is summed.
\<close>

theorem last_line_wins:
  assumes "list_all well_formed (pre @ l # post)"
    and "parse_du l = Inr (k, v)"
    and "\<forall>y\<in>set post. line_id y \<noteq> Some k"
  shows "\<exists>idx. get_all_shards_size (pre @ l # post) m = Inr idx \<and> idx k = Some v"
proof -
  have "get_all_shards_size (pre @ l # post) m = Inr (foldl store_line m (pre @ l # post))"
    using assms(1) by (rule get_all_shards_size_well_formed)
  moreover have "store_line (foldl store_line m pre) l = (foldl store_line m pre)(k \<mapsto> v)"
    using assms(2) by (simp add: store_line_def)
  then have "foldl store_line m (pre @ l # post) k = Some v"
    using foldl_store_line_other [OF assms(3)] by simp
  ultimately show ?thesis by blast
qed

theorem last_line_wins_witness:
  "list_all well_formed ([''100 /d/db/rp/7''] @ ''250 /d/db/rp/7'' # [''30 /d/db/rp/8''])
   \<and> parse_du ''250 /d/db/rp/7'' = Inr (7, 250)
   \<and> list_all (\<lambda>y. line_id y \<noteq> Some 7) [''30 /d/db/rp/8'']
   \<and> (\<exists>idx. get_all_shards_size
               ([''100 /d/db/rp/7''] @ ''250 /d/db/rp/7'' # [''30 /d/db/rp/8'']) Map.empty
             = Inr idx \<and> idx 7 = Some 250)"
proof -
  have wf: "list_all well_formed ([''100 /d/db/rp/7''] @ ''250 /d/db/rp/7'' # [''30 /d/db/rp/8''])"
    by (simp add: well_formed_def du_regexp_def is_digit_def is_space_def)
  have p: "parse_du ''250 /d/db/rp/7'' = Inr (7, 250)"
    by (simp add: parse_du_def du_regexp_def is_digit_def is_space_def int_of_str_def digit_val_def)
  have o: "\<forall>y\<in>set [''30 /d/db/rp/8'']. line_id y \<noteq> Some 7"
    by (simp add: line_id_def parse_du_def du_regexp_def is_digit_def is_space_def
          int_of_str_def digit_val_def)
  show ?thesis
    using wf p o last_line_wins [OF wf p o, of Map.empty] by simp
qed

section \<open>The size formatter\<close>

lemmas size_str_eval =
  size_str_def magnitude_def log_cut_def slack_def floor_log.simps
  float_of_int_def bit_length.simps round_half_even_def
  float_str_def show_nat.simps size_name_def Let_def

lemma floor_log_le_iff: "floor_log n \<le> k \<longleftrightarrow> n < 1024 ^ Suc k"
proof (induction k arbitrary: n)
  case 0
  show ?case by (subst floor_log.simps) simp
next
  case (Suc k)
  show ?case
  proof (cases "n < 1024")
    case True
    have "(1024::nat) \<le> 1024 ^ Suc (Suc k)"
      using power_increasing [of 1 "Suc (Suc k)" "1024::nat"] by simp
    with True have "n < 1024 ^ Suc (Suc k)" by (rule less_le_trans)
    with True show ?thesis by (subst floor_log.simps) simp
  next
    case False
    have "floor_log n = Suc (floor_log (n div 1024))"
      using False by (subst floor_log.simps) simp
    moreover have "n div 1024 < 1024 ^ Suc k \<longleftrightarrow> n < 1024 ^ Suc (Suc k)"
      by (simp add: div_less_iff_less_mult mult.commute)
    ultimately show ?thesis using Suc.IH [of "n div 1024"] by simp
  qed
qed

lemma floor_log_ge_iff: "k \<le> floor_log n \<longleftrightarrow> 1024 ^ k \<le> n \<or> k = 0"
proof (cases k)
  case 0
  then show ?thesis by simp
next
  case (Suc j)
  have "Suc j \<le> floor_log n \<longleftrightarrow> \<not> floor_log n \<le> j" by auto
  also have "\<dots> \<longleftrightarrow> 1024 ^ Suc j \<le> n" by (simp add: floor_log_le_iff not_less)
  finally show ?thesis using Suc by simp
qed

lemma bit_length_lower: "0 < n \<Longrightarrow> 2 ^ (bit_length n - 1) \<le> n"
proof (induction n rule: bit_length.induct)
  case (1 n)
  show ?case
  proof (cases "n div 2 = 0")
    case True
    then have "bit_length n = 1"
      using 1(2) by (subst bit_length.simps, subst bit_length.simps) simp
    then show ?thesis using 1(2) by simp
  next
    case False
    then have ih: "2 ^ (bit_length (n div 2) - 1) \<le> n div 2"
      using 1 by simp
    have pos: "0 < bit_length (n div 2)"
      using False by (subst bit_length.simps) simp
    have "bit_length n = Suc (bit_length (n div 2))"
      using 1(2) by (subst bit_length.simps) simp
    then have "(2::nat) ^ (bit_length n - 1) = 2 * 2 ^ (bit_length (n div 2) - 1)"
      using pos by (cases "bit_length (n div 2)") simp_all
    also have "\<dots> \<le> 2 * (n div 2)" using ih by simp
    also have "\<dots> \<le> n" by simp
    finally show ?thesis .
  qed
qed

lemma bit_length_upper: "n < 2 ^ k \<Longrightarrow> bit_length n \<le> k"
proof (induction k arbitrary: n)
  case 0
  then show ?case by (subst bit_length.simps) simp
next
  case (Suc k)
  show ?case
  proof (cases "n = 0")
    case True
    then show ?thesis by (subst bit_length.simps) simp
  next
    case False
    have "n div 2 < 2 ^ k" using Suc.prems by (simp add: div_less_iff_less_mult mult.commute)
    then have "bit_length (n div 2) \<le> k" by (rule Suc.IH)
    then show ?thesis using False by (subst bit_length.simps) simp
  qed
qed

lemma round_half_even_le: "0 < b \<Longrightarrow> round_half_even a b * b \<le> a + b"
proof -
  assume "0 < b"
  have "round_half_even a b \<le> a div b + 1"
    by (simp add: round_half_even_def Let_def)
  then have "round_half_even a b * b \<le> (a div b + 1) * b"
    by (rule mult_le_mono1)
  also have "\<dots> = (a div b) * b + b" by (simp add: algebra_simps)
  also have "\<dots> \<le> a + b" by simp
  finally show ?thesis .
qed

lemma round_half_even_near:
  assumes "0 < b"
  shows "2 * \<bar>int a - int (round_half_even a b) * int b\<bar> \<le> int b"
proof -
  let ?q = "a div b" and ?r = "a mod b"
  have a: "int a = int ?q * int b + int ?r"
    by (metis div_mult_mod_eq of_nat_add of_nat_mult)
  have r: "?r < b" using assms by simp
  consider "2 * ?r < b" | "b < 2 * ?r" | "2 * ?r = b" by linarith
  then show ?thesis
  proof cases
    case 1
    then have "round_half_even a b = ?q" by (simp add: round_half_even_def Let_def)
    then show ?thesis using a 1 by simp
  next
    case 2
    then have "round_half_even a b = ?q + 1" by (simp add: round_half_even_def Let_def)
    then show ?thesis using a 2 r by (simp add: algebra_simps)
  next
    case 3
    then have "round_half_even a b = ?q \<or> round_half_even a b = ?q + 1"
      by (simp add: round_half_even_def Let_def)
    then show ?thesis using a 3 r by (auto simp: algebra_simps)
  qed
qed

lemma float_of_int_fits:
  assumes "n < 2 ^ 1023"
  shows "\<exists>m. float_of_int n = Some m"
proof (cases "n = 0")
  case True
  then show ?thesis by (simp add: float_of_int_def round_half_even_def Let_def)
next
  case False
  let ?e = "bit_length n - 53"
  have "(2::nat) ^ ?e \<le> 2 ^ (bit_length n - 1)"
    by (rule power_increasing) simp_all
  also have "\<dots> \<le> n" using False bit_length_lower [of n] by simp
  finally have e: "(2::nat) ^ ?e \<le> n" .
  have "round_half_even n (2 ^ ?e) * 2 ^ ?e \<le> n + 2 ^ ?e"
    by (rule round_half_even_le) simp
  also have "\<dots> \<le> n + n" using e by simp
  also have "\<dots> < 2 ^ 1023 + 2 ^ 1023" using assms by simp
  also have "\<dots> = (2::nat) ^ 1024" by simp
  finally show ?thesis by (simp add: float_of_int_def Let_def)
qed

lemma float_of_int_exact:
  assumes "n < 2 ^ 53"
  shows "float_of_int n = Some n"
proof -
  have "bit_length n \<le> 53" using assms by (rule bit_length_upper)
  then have e: "bit_length n - 53 = 0" by simp
  have "n < 2 ^ 1024"
    using assms by (rule less_trans) simp
  then show ?thesis
    by (simp add: float_of_int_def e round_half_even_def Let_def)
qed

lemma size_str_positive:
  assumes "0 < n"
  shows "size_str n =
     (if 103 \<le> magnitude (nat n) then Inl OverflowError
      else (case float_of_int (nat n) of
              None \<Rightarrow> Inl OverflowError
            | Some m \<Rightarrow>
                if magnitude (nat n) \<le> 8
                then Inr (float_str (round_half_even (m * 100) (1024 ^ magnitude (nat n)))
                          @ '' '' @ size_name ! magnitude (nat n))
                else Inl IndexError))"
proof -
  have "magnitude (nat n) < length size_name \<longleftrightarrow> magnitude (nat n) \<le> 8"
    by (auto simp: size_name_def)
  then show ?thesis using assms
    by (simp add: size_str_def Let_def split: option.splits)
qed

lemma log_cut_9: "log_cut 9 = 1024 ^ 9 - 7765300871168"
  by (simp add: log_cut_def slack_def)

lemma log_cut_5: "log_cut 5 = 1024 ^ 5 - 3"
  by (simp add: log_cut_def slack_def)

lemma magnitude_le_8_iff: "magnitude n \<le> 8 \<longleftrightarrow> n < log_cut 9"
  by (simp add: magnitude_def log_cut_def slack_def)

lemma magnitude_bounds:
  assumes "magnitude n \<le> 8" and "0 < n"
  shows "log_cut (magnitude n) \<le> n \<and> n < log_cut (Suc (magnitude n))"
proof -
  note ev = magnitude_def log_cut_def slack_def
  have "n < log_cut 9" using assms(1) by (simp only: magnitude_le_8_iff)
  then consider (a) "n < log_cut 1"
    | (b) "log_cut 1 \<le> n \<and> n < log_cut 2"
    | (c) "log_cut 2 \<le> n \<and> n < log_cut 3"
    | (d) "log_cut 3 \<le> n \<and> n < log_cut 4"
    | (e) "log_cut 4 \<le> n \<and> n < log_cut 5"
    | (f) "log_cut 5 \<le> n \<and> n < log_cut 6"
    | (g) "log_cut 6 \<le> n \<and> n < log_cut 7"
    | (h) "log_cut 7 \<le> n \<and> n < log_cut 8"
    | (i) "log_cut 8 \<le> n \<and> n < log_cut 9"
    by linarith
  then show ?thesis
  proof cases
    case a
    then show ?thesis using assms(2) by (simp add: ev)
  next
    case b
    then show ?thesis using assms(2) by (simp add: ev)
  next
    case c
    then show ?thesis using assms(2) by (simp add: ev)
  next
    case d
    then show ?thesis using assms(2) by (simp add: ev)
  next
    case e
    then show ?thesis using assms(2) by (simp add: ev)
  next
    case f
    then show ?thesis using assms(2) by (simp add: ev)
  next
    case g
    then show ?thesis using assms(2) by (simp add: ev)
  next
    case h
    then show ?thesis using assms(2) by (simp add: ev)
  next
    case i
    then show ?thesis using assms(2) by (simp add: ev)
  qed
qed

lemma magnitude_exact:
  assumes "n < log_cut 5" and "0 < n"
  shows "1024 ^ magnitude n \<le> n \<and> n < 1024 ^ Suc (magnitude n)"
proof -
  note ev = magnitude_def log_cut_def slack_def
  from assms(1) consider (a) "n < log_cut 1"
    | (b) "log_cut 1 \<le> n \<and> n < log_cut 2"
    | (c) "log_cut 2 \<le> n \<and> n < log_cut 3"
    | (d) "log_cut 3 \<le> n \<and> n < log_cut 4"
    | (e) "log_cut 4 \<le> n \<and> n < log_cut 5"
    by linarith
  then show ?thesis
  proof cases
    case a
    then show ?thesis using assms(2) by (simp add: ev)
  next
    case b
    then show ?thesis using assms(2) by (simp add: ev)
  next
    case c
    then show ?thesis using assms(2) by (simp add: ev)
  next
    case d
    then show ?thesis using assms(2) by (simp add: ev)
  next
    case e
    then show ?thesis using assms(2) by (simp add: ev)
  qed
qed


lemma small_fits:
  assumes "magnitude n \<le> 8"
  shows "\<exists>m. float_of_int n = Some m"
proof -
  have "n < log_cut 9" using assms by (simp only: magnitude_le_8_iff)
  also have "log_cut 9 < 2 ^ 1023" by (simp add: log_cut_9)
  finally show ?thesis by (rule float_of_int_fits)
qed


lemma round_half_even_tie:
  "2 * (a mod b) = b \<Longrightarrow> even (round_half_even a b)"
  by (simp add: round_half_even_def Let_def)

lemma digit_nth:
  assumes "d < 10"
  shows "is_digit (''0123456789'' ! d) \<and> digit_val (''0123456789'' ! d) = int d
         \<and> (''0123456789'' ! d = CHR ''0'' \<longleftrightarrow> d = 0)"
proof -
  from assms consider "d = 0" | "d = 1" | "d = 2" | "d = 3" | "d = 4" | "d = 5" | "d = 6"
    | "d = 7" | "d = 8" | "d = 9"
    by atomize_elim presburger
  then show ?thesis
    by cases (simp_all add: is_digit_def digit_val_def)
qed

lemma show_nat_digit: "n < 10 \<Longrightarrow> show_nat n = [''0123456789'' ! n]"
  by (subst show_nat.simps) simp

lemma int_of_str_snoc: "int_of_str (xs @ [c]) = 10 * int_of_str xs + digit_val c"
  by (simp add: int_of_str_def)

lemma show_nat_reads:
  "list_all is_digit (show_nat n) \<and> int_of_str (show_nat n) = int n \<and> show_nat n \<noteq> []"
proof (induction n rule: show_nat.induct)
  case (1 n)
  show ?case
  proof (cases "n < 10")
    case True
    then show ?thesis
      using digit_nth [of n] by (simp add: show_nat_digit int_of_str_def)
  next
    case False
    then have eq: "show_nat n = show_nat (n div 10) @ [''0123456789'' ! (n mod 10)]"
      by (subst show_nat.simps) simp
    have d: "n mod 10 < 10" by simp
    have "int n = 10 * int (n div 10) + int (n mod 10)"
      by (metis mult_div_mod_eq of_nat_add of_nat_mult of_nat_numeral)
    then show ?thesis
      using 1 [OF False] digit_nth [OF d] unfolding eq
      by (simp add: int_of_str_snoc)
  qed
qed

lemma show_nat_hd: "0 < n \<Longrightarrow> hd (show_nat n) \<noteq> CHR ''0''"
proof (induction n rule: show_nat.induct)
  case (1 n)
  show ?case
  proof (cases "n < 10")
    case True
    then show ?thesis
      using digit_nth [of n] 1(2) by (simp add: show_nat_digit)
  next
    case False
    then have eq: "show_nat n = show_nat (n div 10) @ [''0123456789'' ! (n mod 10)]"
      by (subst show_nat.simps) simp
    have "0 < n div 10" using False by (simp add: div_greater_zero_iff)
    then have "hd (show_nat (n div 10)) \<noteq> CHR ''0''"
      using 1(1) [OF False] by simp
    then show ?thesis
      unfolding eq using show_nat_reads [of "n div 10"] by simp
  qed
qed

lemma float_str_text:
  "\<exists>ip fp. float_str h = ip @ ''.'' @ fp
     \<and> list_all is_digit ip \<and> list_all is_digit fp
     \<and> (length ip = 1 \<or> hd ip \<noteq> CHR ''0'')
     \<and> (length fp = 1 \<or> length fp = 2 \<and> last fp \<noteq> CHR ''0'')
     \<and> int_of_str ip = int (h div 100)
     \<and> int_of_str fp * 10 ^ (2 - length fp) = int (h mod 100)"
proof -
  let ?ip = "show_nat (h div 100)"
  let ?d1 = "h mod 100 div 10" and ?d0 = "h mod 10"
  have d1: "?d1 < 10" by simp
  have d0: "?d0 < 10" by simp
  have split: "int (h mod 100) = 10 * int ?d1 + int ?d0"
  proof -
    have "h mod 100 = 10 * ?d1 + h mod 100 mod 10" by simp
    moreover have "h mod 100 mod 10 = ?d0" by (simp add: mod_mod_cancel)
    ultimately have "h mod 100 = 10 * ?d1 + ?d0" by simp
    then show ?thesis by (metis of_nat_add of_nat_mult of_nat_numeral)
  qed
  have ip: "list_all is_digit ?ip" "int_of_str ?ip = int (h div 100)"
    using show_nat_reads [of "h div 100"] by simp_all
  have lead: "length ?ip = 1 \<or> hd ?ip \<noteq> CHR ''0''"
  proof (cases "h div 100 = 0")
    case True
    then show ?thesis by (simp add: show_nat_digit)
  next
    case False
    then show ?thesis using show_nat_hd [of "h div 100"] by simp
  qed
  show ?thesis
  proof (cases "?d0 = 0")
    case True
    let ?fp = "[''0123456789'' ! ?d1]"
    have "float_str h = ?ip @ ''.'' @ ?fp"
      using True by (simp add: float_str_def show_nat_digit)
    moreover have "list_all is_digit ?fp" using digit_nth [OF d1] by simp
    moreover have "int_of_str ?fp * 10 ^ (2 - length ?fp) = int (h mod 100)"
      using digit_nth [OF d1] split True by (simp add: int_of_str_def)
    ultimately show ?thesis using ip lead
      by (intro exI [of _ ?ip] exI [of _ ?fp]) simp
  next
    case False
    let ?fp = "[''0123456789'' ! ?d1, ''0123456789'' ! ?d0]"
    have "float_str h = ?ip @ ''.'' @ ?fp"
      using False by (simp add: float_str_def show_nat_digit)
    moreover have "list_all is_digit ?fp" using digit_nth [OF d1] digit_nth [OF d0] by simp
    moreover have "last ?fp \<noteq> CHR ''0''" using digit_nth [OF d0] False by simp
    moreover have "int_of_str ?fp * 10 ^ (2 - length ?fp) = int (h mod 100)"
      using digit_nth [OF d1] digit_nth [OF d0] split by (simp add: int_of_str_def)
    ultimately show ?thesis using ip lead
      by (intro exI [of _ ?ip] exI [of _ ?fp]) simp
  qed
qed




text \<open>
  Claim C4, as the code has it. The rounded value is a double and is rendered as one,
  always with a decimal point: 1024 bytes are \<^verbatim>\<open>1.0 KB\<close> and 1048576 bytes \<^verbatim>\<open>1.0 MB\<close>.
  For a positive count below \<open>1024 ^ 9 - 7765300871168\<close> the unit index \<open>i\<close> is the computed
  one, between the cuts \<open>log_cut i\<close> and \<open>log_cut (i + 1)\<close>: it is the one with
  \<open>1024 ^ i \<le> bytes < 1024 ^ (i + 1)\<close> for every count below \<open>1024 ^ 5 - 3\<close>, and one
  higher for the counts just below a power of 1024 from there on, so that
  \<open>1024 ^ 5 - 1\<close> bytes are \<^verbatim>\<open>1.0 PB\<close>. The count (exact below \<open>2 ^ 53\<close>) is divided by
  \<open>1024 ^ i\<close> and rounded to the nearest hundredth \<open>h / 100\<close>, a tie going to the even
  hundredth; the value is written as the decimal of \<open>h / 100\<close> with one digit after the
  point, or two when the second is not zero, and the value and the unit are joined by
  one space.
\<close>

theorem size_str_reference_values:
  "size_str 0 = Inr ''0B''
   \<and> size_str 1024 = Inr ''1.0 KB''
   \<and> size_str 1536 = Inr ''1.5 KB''
   \<and> size_str 1048576 = Inr ''1.0 MB''
   \<and> size_str 1075 = Inr ''1.05 KB''
   \<and> size_str 1152 = Inr ''1.12 KB''
   \<and> size_str 1408 = Inr ''1.38 KB''
   \<and> size_str (1024 ^ 5 - 1) = Inr ''1.0 PB''
   \<and> (0 < n \<and> n < 1024 ^ 9 - 7765300871168 \<longrightarrow>
        (\<exists>i m h ip fp. i = magnitude (nat n) \<and> i \<le> 8
           \<and> log_cut i \<le> nat n \<and> nat n < log_cut (Suc i)
           \<and> (n < 1024 ^ 5 - 3 \<longrightarrow> 1024 ^ i \<le> n \<and> n < 1024 ^ Suc i)
           \<and> float_of_int (nat n) = Some m \<and> (n < 2 ^ 53 \<longrightarrow> m = nat n)
           \<and> h = round_half_even (m * 100) (1024 ^ i)
           \<and> 2 * \<bar>int (m * 100) - int h * 1024 ^ i\<bar> \<le> 1024 ^ i
           \<and> (2 * ((m * 100) mod 1024 ^ i) = 1024 ^ i \<longrightarrow> even h)
           \<and> size_str n = Inr (ip @ ''.'' @ fp @ '' '' @ size_name ! i)
           \<and> list_all is_digit ip \<and> list_all is_digit fp
           \<and> (length ip = 1 \<or> hd ip \<noteq> CHR ''0'')
           \<and> (length fp = 1 \<or> length fp = 2 \<and> last fp \<noteq> CHR ''0'')
           \<and> int_of_str ip = int (h div 100)
           \<and> int_of_str fp * 10 ^ (2 - length fp) = int (h mod 100)))"
proof (intro conjI impI)
  show "size_str 0 = Inr ''0B''" by (simp add: size_str_def)
  show "size_str 1024 = Inr ''1.0 KB''" by (simp add: size_str_eval)
  show "size_str 1536 = Inr ''1.5 KB''" by (simp add: size_str_eval)
  show "size_str 1048576 = Inr ''1.0 MB''" by (simp add: size_str_eval)
  show "size_str 1075 = Inr ''1.05 KB''" by (simp add: size_str_eval)
  show "size_str 1152 = Inr ''1.12 KB''" by (simp add: size_str_eval)
  show "size_str 1408 = Inr ''1.38 KB''" by (simp add: size_str_eval)
  show "size_str (1024 ^ 5 - 1) = Inr ''1.0 PB''" by (simp add: size_str_eval)
next
  assume range: "0 < n \<and> n < 1024 ^ 9 - 7765300871168"
  let ?i = "magnitude (nat n)"
  have pos: "0 < nat n" using range by simp
  have "nat n < log_cut 9" using range by (simp add: log_cut_9 nat_less_iff)
  then have i8: "?i \<le> 8" by (simp only: magnitude_le_8_iff)
  have cuts: "log_cut ?i \<le> nat n \<and> nat n < log_cut (Suc ?i)"
    using i8 pos by (rule magnitude_bounds)
  have exact: "n < 1024 ^ 5 - 3 \<longrightarrow> 1024 ^ ?i \<le> n \<and> n < 1024 ^ Suc ?i"
  proof
    assume "n < 1024 ^ 5 - 3"
    then have "nat n < log_cut 5" using range by (simp add: log_cut_5 nat_less_iff)
    then have "1024 ^ ?i \<le> nat n \<and> nat n < 1024 ^ Suc ?i"
      using pos by (rule magnitude_exact)
    then show "1024 ^ ?i \<le> n \<and> n < 1024 ^ Suc ?i"
      using range by (simp add: le_nat_iff nat_less_iff)
  qed
  obtain m where m: "float_of_int (nat n) = Some m"
    using small_fits [OF i8] by blast
  have same: "n < 2 ^ 53 \<longrightarrow> m = nat n"
  proof
    assume "n < 2 ^ 53"
    then have "nat n < 2 ^ 53" using range by (simp add: nat_less_iff)
    then have "float_of_int (nat n) = Some (nat n)" by (rule float_of_int_exact)
    with m show "m = nat n" by simp
  qed
  let ?h = "round_half_even (m * 100) (1024 ^ ?i)"
  have near: "2 * \<bar>int (m * 100) - int ?h * 1024 ^ ?i\<bar> \<le> 1024 ^ ?i"
    using round_half_even_near [of "1024 ^ ?i" "m * 100"] by simp
  have tie: "2 * ((m * 100) mod 1024 ^ ?i) = 1024 ^ ?i \<longrightarrow> even ?h"
    using round_half_even_tie [of "m * 100" "1024 ^ ?i"] by blast
  obtain ip fp where t: "float_str ?h = ip @ ''.'' @ fp"
    and digits: "list_all is_digit ip" "list_all is_digit fp"
    and lead: "length ip = 1 \<or> hd ip \<noteq> CHR ''0''"
    and short: "length fp = 1 \<or> length fp = 2 \<and> last fp \<noteq> CHR ''0''"
    and whole: "int_of_str ip = int (?h div 100)"
    and part: "int_of_str fp * 10 ^ (2 - length fp) = int (?h mod 100)"
    using float_str_text [of ?h] by blast
  have "size_str n = Inr (float_str ?h @ '' '' @ size_name ! ?i)"
    using range i8 m by (simp add: size_str_positive)
  then have str: "size_str n = Inr (ip @ ''.'' @ fp @ '' '' @ size_name ! ?i)"
    using t by simp
  show "\<exists>i m h ip fp. i = magnitude (nat n) \<and> i \<le> 8
           \<and> log_cut i \<le> nat n \<and> nat n < log_cut (Suc i)
           \<and> (n < 1024 ^ 5 - 3 \<longrightarrow> 1024 ^ i \<le> n \<and> n < 1024 ^ Suc i)
           \<and> float_of_int (nat n) = Some m \<and> (n < 2 ^ 53 \<longrightarrow> m = nat n)
           \<and> h = round_half_even (m * 100) (1024 ^ i)
           \<and> 2 * \<bar>int (m * 100) - int h * 1024 ^ i\<bar> \<le> 1024 ^ i
           \<and> (2 * ((m * 100) mod 1024 ^ i) = 1024 ^ i \<longrightarrow> even h)
           \<and> size_str n = Inr (ip @ ''.'' @ fp @ '' '' @ size_name ! i)
           \<and> list_all is_digit ip \<and> list_all is_digit fp
           \<and> (length ip = 1 \<or> hd ip \<noteq> CHR ''0'')
           \<and> (length fp = 1 \<or> length fp = 2 \<and> last fp \<noteq> CHR ''0'')
           \<and> int_of_str ip = int (h div 100)
           \<and> int_of_str fp * 10 ^ (2 - length fp) = int (h mod 100)"
    using i8 cuts exact m same near tie str digits lead short whole part
    by (intro exI [of _ ?i] exI [of _ m] exI [of _ ?h] exI [of _ ip] exI [of _ fp]) blast
qed

theorem size_str_reference_values_witness:
  "(0::int) < 123456789 \<and> (123456789::int) < 1024 ^ 9 - 7765300871168
   \<and> magnitude (nat 123456789) = 2
   \<and> float_of_int (nat 123456789) = Some 123456789
   \<and> round_half_even (123456789 * 100) (1024 ^ 2) = 11774
   \<and> size_str 123456789 = Inr (''117'' @ ''.'' @ ''74'' @ '' '' @ size_name ! 2)
   \<and> size_str 123456789 = Inr ''117.74 MB''"
  using size_str_reference_values [of 123456789]
  by (simp add: size_str_eval)

text \<open>Claim C4 as stated fails: 1024 bytes are not rendered as \<^verbatim>\<open>1 KB\<close>.\<close>

theorem size_str_whole_value_counterexample:
  "size_str 1024 = Inr ''1.0 KB'' \<and> size_str 1024 \<noteq> Inr ''1 KB''"
  by (simp add: size_str_eval)

section \<open>The aggregation\<close>

lemma shard_step_parses:
  assumes "parses s"
  shows "shard_step self a s (acc, lg) = Inr (acc + contribution self a s, lg @ missing self a s)"
proof -
  obtain b e where be: "start_time s = Some b" "end_time s = Some e"
    using assms by (auto simp: parses_def)
  show ?thesis
    by (cases "shards_size_list self (shard_id s)")
       (auto simp: shard_step_def be in_window_def contribution_def missing_def
          get_shard_size_def not_less)
qed

lemma shard_loop_parses:
  "\<forall>s\<in>set grp. parses s \<Longrightarrow>
   shard_loop self a grp (acc, lg) =
     Inr (acc + sum_list (map (contribution self a) grp), lg @ concat (map (missing self a) grp))"
proof (induction grp arbitrary: acc lg)
  case Nil
  show ?case by simp
next
  case (Cons s grp)
  then have "parses s" and rest: "\<forall>x\<in>set grp. parses x" by simp_all
  then show ?case
    using Cons.IH [OF rest] by (simp add: shard_step_parses add.assoc)
qed

lemma shard_loop_unparsed:
  "shard_loop self a grp st = Inr r \<Longrightarrow> \<forall>s\<in>set grp. parses s"
proof (induction grp arbitrary: st)
  case Nil
  show ?case by simp
next
  case (Cons s grp)
  from Cons.prems obtain st' where step: "shard_step self a s st = Inr st'"
    and rest: "shard_loop self a grp st' = Inr r"
    by (auto split: sum.splits)
  have "parses s"
    using step by (auto simp: shard_step_def parses_def split: option.splits)
  moreover have "\<forall>x\<in>set grp. parses x" using rest by (rule Cons.IH)
  ultimately show ?case by simp
qed

lemma group_step_Inr:
  assumes "group_step self a st grp = Inr st'"
  shows "database st' = bound_database st grp \<and>
    (if skipped self (bound_database st grp)
     then total_size st' = total_size st \<and> printed st' = printed st
          \<and> debug_log st' = debug_log st
     else \<exists>sz lg. shard_loop self a grp (0, debug_log st) = Inr (sz, lg)
            \<and> total_size st' = total_size st + sz \<and> debug_log st' = lg
            \<and> (if full a \<or> filter_set self
                then \<exists>txt d. size_str sz = Inr txt \<and> bound_database st grp = Some d
                       \<and> printed st' = printed st @ [DatabaseSizeResult (txt @ '': '' @ d) d sz]
                else printed st' = printed st))"
proof (cases "skipped self (bound_database st grp)")
  case True
  then show ?thesis using assms
    by (auto simp: group_step_def skipped_def Let_def split: if_splits)
next
  case nsk: False
  then have ns: "\<not> (filter_set self \<and> bound_database st grp \<noteq> influx_db self)"
    by (simp add: skipped_def)
  from assms ns obtain sz lg where
    loop: "shard_loop self a grp (0, debug_log st) = Inr (sz, lg)"
    by (cases "shard_loop self a grp (0, debug_log st)")
       (auto simp: group_step_def Let_def split: if_splits)
  show ?thesis
  proof (cases "full a \<or> filter_set self")
    case False
    then show ?thesis using assms ns loop nsk
      by (auto simp: group_step_def Let_def split: if_splits)
  next
    case True
    from assms ns loop True obtain t where t: "size_str sz = Inr t"
      by (cases "size_str sz") (auto simp: group_step_def Let_def split: if_splits)
    from assms ns loop True t obtain d where d: "bound_database st grp = Some d"
      by (cases "bound_database st grp") (auto simp: group_step_def Let_def split: if_splits)
    show ?thesis using assms ns loop True t d nsk
      by (auto simp: group_step_def Let_def split: if_splits)
  qed
qed

lemma emitted_sum_append:
  "emitted_sum (ls @ [DatabaseSizeResult t d b]) = emitted_sum ls + b"
  by (simp add: emitted_sum_def)

lemma group_loop_sum:
  assumes "full a" and "\<not> filter_set self"
  shows "group_loop self a gs st = Inr st' \<Longrightarrow>
         emitted_sum (printed st') - emitted_sum (printed st) = total_size st' - total_size st"
proof (induction gs arbitrary: st)
  case Nil
  then show ?case by simp
next
  case (Cons g gs)
  from Cons.prems obtain st1 where step: "group_step self a st g = Inr st1"
    and rest: "group_loop self a gs st1 = Inr st'"
    by (auto split: sum.splits)
  have "\<not> skipped self (bound_database st g)"
    using assms(2) by (simp add: skipped_def)
  then obtain sz t d where "total_size st1 = total_size st + sz"
    and "printed st1 = printed st @ [DatabaseSizeResult t d sz]"
    using group_step_Inr [OF step] assms(1) by auto
  then have "emitted_sum (printed st1) - emitted_sum (printed st) = total_size st1 - total_size st"
    by (simp add: emitted_sum_append)
  then show ?case using Cons.IH [OF rest] by simp
qed


lemma aggregate_Inr:
  assumes "aggregate self a groups = Inr fin"
  shows "\<exists>st. group_loop self a groups init_state = Inr st \<and> total_size fin = total_size st
           \<and> (if filter_set self then printed fin = printed st
               else \<exists>txt. size_str (total_size st) = Inr txt
                      \<and> printed fin = printed st @ [GrandTotal (''TOTAL: '' @ txt) (total_size st)])"
  using assms
  by (cases "group_loop self a groups init_state")
     (auto simp: aggregate_def split: if_splits sum.splits)

lemma group_step_report:
  assumes rep: "same_report st st2"
    and db: "bound_database st g = bound_database st g'"
    and p': "\<forall>x\<in>set g'. parses x"
    and sum: "sum_list (map (contribution self a) g') = sum_list (map (contribution self a) g)"
    and step: "group_step self a st g = Inr st'"
  shows "\<exists>st2'. group_step self a st2 g' = Inr st2' \<and> same_report st' st2'"
proof -
  have db2: "bound_database st2 g' = bound_database st g"
    using rep db by (simp add: same_report_def bound_database_def split: list.splits)
  note facts = group_step_Inr [OF step]
  show ?thesis
  proof (cases "skipped self (bound_database st g)")
    case True
    have "\<not> (filter_set self \<and> bound_database st g = None)"
      using step by (auto simp: group_step_def Let_def split: if_splits)
    then have "group_step self a st2 g' = Inr (st2\<lparr>database := bound_database st g\<rparr>)"
      using True db2 by (auto simp: group_step_def Let_def skipped_def)
    then show ?thesis using facts True rep by (simp add: same_report_def)
  next
    case False
    then obtain sz lg where loop: "shard_loop self a g (0, debug_log st) = Inr (sz, lg)"
      and tot: "total_size st' = total_size st + sz"
      and pr: "if full a \<or> filter_set self
                then \<exists>t d. size_str sz = Inr t \<and> bound_database st g = Some d
                       \<and> printed st' = printed st @ [DatabaseSizeResult (t @ '': '' @ d) d sz]
                else printed st' = printed st"
      using facts by auto
    have "\<forall>x\<in>set g. parses x" using loop by (rule shard_loop_unparsed)
    then have "sz = sum_list (map (contribution self a) g)"
      using loop by (simp add: shard_loop_parses)
    then have loop': "shard_loop self a g' (0, debug_log st2) =
        Inr (sz, debug_log st2 @ concat (map (missing self a) g'))"
      using shard_loop_parses [OF p', of self a 0 "debug_log st2"] sum by simp
    have ns: "\<not> (filter_set self \<and> bound_database st g \<noteq> influx_db self)"
      using False by (simp add: skipped_def)
    have nn: "\<not> (filter_set self \<and> bound_database st g = None)"
      using step by (auto simp: group_step_def Let_def split: if_splits)
    show ?thesis
    proof (cases "full a \<or> filter_set self")
      case True
      then obtain t d where "size_str sz = Inr t" and "bound_database st g = Some d"
        and "printed st' = printed st @ [DatabaseSizeResult (t @ '': '' @ d) d sz]"
        using pr by auto
      then show ?thesis using True ns nn db2 loop' tot facts rep
        by (auto simp: group_step_def Let_def same_report_def)
    next
      case nf: False
      then have "printed st' = printed st" using pr by simp
      then show ?thesis using nf ns nn db2 loop' tot facts rep
        by (auto simp: group_step_def Let_def same_report_def)
    qed
  qed
qed

lemma group_loop_report:
  "same_report st st2 \<Longrightarrow> group_loop self a gs st = Inr st' \<Longrightarrow>
   \<exists>st2'. group_loop self a gs st2 = Inr st2' \<and> same_report st' st2'"
proof (induction gs arbitrary: st st2)
  case Nil
  then show ?case by simp
next
  case (Cons g gs)
  from Cons.prems(2) obtain st1 where step: "group_step self a st g = Inr st1"
    and rest: "group_loop self a gs st1 = Inr st'"
    by (auto split: sum.splits)
  have "\<not> skipped self (bound_database st g) \<Longrightarrow> \<forall>x\<in>set g. parses x"
    using group_step_Inr [OF step] shard_loop_unparsed by (auto split: if_splits)
  show ?case
  proof (cases "skipped self (bound_database st g)")
    case False
    then have "\<forall>x\<in>set g. parses x"
      using group_step_Inr [OF step] shard_loop_unparsed by (auto split: if_splits)
    then obtain st3 where "group_step self a st2 g = Inr st3" and "same_report st1 st3"
      using group_step_report [OF Cons.prems(1) _ _ _ step, of g] by auto
    then show ?thesis using Cons.IH [OF _ rest, of st3] by auto
  next
    case True
    have nn: "\<not> (filter_set self \<and> bound_database st g = None)"
      using step by (auto simp: group_step_def Let_def split: if_splits)
    have "bound_database st2 g = bound_database st g"
      using Cons.prems(1) by (simp add: same_report_def bound_database_def split: list.splits)
    then have "group_step self a st2 g = Inr (st2\<lparr>database := bound_database st g\<rparr>)"
      using True nn by (auto simp: group_step_def Let_def skipped_def)
    moreover have "same_report st1 (st2\<lparr>database := bound_database st g\<rparr>)"
      using group_step_Inr [OF step] True Cons.prems(1) by (simp add: same_report_def)
    ultimately show ?thesis using Cons.IH [OF _ rest] by auto
  qed
qed

lemma group_loop_append:
  "group_loop self a (xs @ ys) st =
     (case group_loop self a xs st of Inl e \<Rightarrow> Inl e | Inr st1 \<Rightarrow> group_loop self a ys st1)"
  by (induction xs arbitrary: st) (auto split: sum.splits)

lemma same_report_refl: "same_report st st"
  by (simp add: same_report_def)

lemma aggregate_without_missing:
  assumes win: "in_window a s" and none: "shards_size_list self (shard_id s) = None"
    and first: "xs \<noteq> []"
    and run: "aggregate self a (gs1 @ (xs @ s # ys) # gs2) = Inr fin"
  shows "\<exists>fin'. aggregate self a (gs1 @ (xs @ ys) # gs2) = Inr fin' \<and> same_report fin fin'"
proof -
  let ?g = "xs @ s # ys" and ?g' = "xs @ ys"
  obtain st where loop: "group_loop self a (gs1 @ ?g # gs2) init_state = Inr st"
    and tot: "total_size fin = total_size st"
    and pr: "if filter_set self then printed fin = printed st
             else \<exists>t. size_str (total_size st) = Inr t
                    \<and> printed fin = printed st @ [GrandTotal (''TOTAL: '' @ t) (total_size st)]"
    using aggregate_Inr [OF run] by auto
  have dbfin: "database fin = database st"
    using run loop by (auto simp: aggregate_def split: if_splits sum.splits)
  from loop obtain st1 st2 where l1: "group_loop self a gs1 init_state = Inr st1"
    and step: "group_step self a st1 ?g = Inr st2"
    and l2: "group_loop self a gs2 st2 = Inr st"
    by (auto simp: group_loop_append split: sum.splits)
  have c: "contribution self a s = 0"
    using win none by (simp add: contribution_def)
  have db: "bound_database st1 ?g = bound_database st1 ?g'"
    using first by (cases xs) (simp_all add: bound_database_def)
  have same: "\<exists>st2'. group_step self a st1 ?g' = Inr st2' \<and> same_report st2 st2'"
  proof (cases "skipped self (bound_database st1 ?g)")
    case False
    then have "\<forall>x\<in>set ?g. parses x"
      using group_step_Inr [OF step] shard_loop_unparsed by (auto split: if_splits)
    then have "\<forall>x\<in>set ?g'. parses x" by auto
    then show ?thesis
      using group_step_report [OF same_report_refl db _ _ step] c by simp
  next
    case True
    have nn: "\<not> (filter_set self \<and> bound_database st1 ?g = None)"
      using step by (auto simp: group_step_def Let_def split: if_splits)
    have "group_step self a st1 ?g' = Inr (st1\<lparr>database := bound_database st1 ?g\<rparr>)"
      using True nn db by (auto simp: group_step_def Let_def skipped_def)
    moreover have "same_report st2 (st1\<lparr>database := bound_database st1 ?g\<rparr>)"
      using group_step_Inr [OF step] True by (simp add: same_report_def)
    ultimately show ?thesis by blast
  qed
  then obtain st2' where step': "group_step self a st1 ?g' = Inr st2'"
    and r2: "same_report st2 st2'" by blast
  obtain st' where l2': "group_loop self a gs2 st2' = Inr st'" and r: "same_report st st'"
    using group_loop_report [OF r2 l2] by blast
  have loop': "group_loop self a (gs1 @ ?g' # gs2) init_state = Inr st'"
    using l1 step' l2' by (simp add: group_loop_append)
  show ?thesis
  proof (cases "filter_set self")
    case True
    then have "aggregate self a (gs1 @ ?g' # gs2) = Inr st'"
      using loop' by (simp add: aggregate_def)
    moreover have "same_report fin st'"
      using True pr tot dbfin r by (simp add: same_report_def)
    ultimately show ?thesis by blast
  next
    case False
    then obtain t where t: "size_str (total_size st) = Inr t"
      and pf: "printed fin = printed st @ [GrandTotal (''TOTAL: '' @ t) (total_size st)]"
      using pr by auto
    have ts: "total_size st' = total_size st" using r by (simp add: same_report_def)
    have "aggregate self a (gs1 @ ?g' # gs2) =
        Inr (st'\<lparr>printed := printed st' @ [GrandTotal (''TOTAL: '' @ t) (total_size st')]\<rparr>)"
      using False loop' t ts by (simp add: aggregate_def)
    moreover have "same_report fin
        (st'\<lparr>printed := printed st' @ [GrandTotal (''TOTAL: '' @ t) (total_size st')]\<rparr>)"
      using pf tot dbfin r by (simp add: same_report_def)
    ultimately show ?thesis by blast
  qed
qed

section \<open>The report\<close>

lemmas run_eval =
  shard_10_def shard_11_def shard_12_def year_2020_def one_shard_on_disk_def
  aggregate_def group_step_def bound_database_def shard_step_def get_shard_size_def
  filter_set_def init_state_def skipped_def in_window_def contribution_def missing_def
  parses_def emitted_sum_def same_report_def

text \<open>
  Claim C6. A shard whose times parse adds its size to the size of its group exactly when
  its window lies within the window asked for, both ends included: a shard that starts
  before \<open>from\<close> adds nothing, a shard that ends after \<open>to\<close> adds nothing, a shard whose
  window is the window asked for is counted, and over a group every shard is counted
  once.
\<close>

theorem window_containment:
  "(start_time s = Some b \<and> end_time s = Some e \<longrightarrow>
      (in_window a s \<longleftrightarrow> from_date a \<le> b \<and> e \<le> to_date a)
      \<and> shard_step self a s (acc, lg) = Inr (acc + contribution self a s, lg @ missing self a s)
      \<and> (b < from_date a \<longrightarrow> shard_step self a s (acc, lg) = Inr (acc, lg))
      \<and> (to_date a < e \<longrightarrow> shard_step self a s (acc, lg) = Inr (acc, lg))
      \<and> (from_date a \<le> b \<and> e \<le> to_date a \<and> shards_size_list self (shard_id s) = Some v \<longrightarrow>
            shard_step self a s (acc, lg) = Inr (acc + v, lg))
      \<and> (b = from_date a \<and> e = to_date a \<and> shards_size_list self (shard_id s) = Some v \<longrightarrow>
            shard_step self a s (acc, lg) = Inr (acc + v, lg)))
   \<and> ((\<forall>s\<in>set grp. parses s) \<longrightarrow>
        shard_loop self a grp (0, lg) =
          Inr (sum_list (map (contribution self a) grp), lg @ concat (map (missing self a) grp)))"
proof (intro conjI impI)
  assume all: "\<forall>s\<in>set grp. parses s"
  show "shard_loop self a grp (0, lg) =
          Inr (sum_list (map (contribution self a) grp), lg @ concat (map (missing self a) grp))"
    using shard_loop_parses [OF all, of self a 0 lg] by simp
next
  assume be: "start_time s = Some b \<and> end_time s = Some e"
  then have p: "parses s" by (simp add: parses_def)
  show "in_window a s \<longleftrightarrow> from_date a \<le> b \<and> e \<le> to_date a"
    using be by (simp add: in_window_def)
  show "shard_step self a s (acc, lg) = Inr (acc + contribution self a s, lg @ missing self a s)"
    using p by (rule shard_step_parses)
  {
    assume "b < from_date a"
    then have "\<not> in_window a s" using be by (simp add: in_window_def not_le)
    then show "shard_step self a s (acc, lg) = Inr (acc, lg)"
      using p by (simp add: shard_step_parses contribution_def missing_def)
  }
  {
    assume "to_date a < e"
    then have "\<not> in_window a s" using be by (simp add: in_window_def not_le)
    then show "shard_step self a s (acc, lg) = Inr (acc, lg)"
      using p by (simp add: shard_step_parses contribution_def missing_def)
  }
  {
    assume "from_date a \<le> b \<and> e \<le> to_date a \<and> shards_size_list self (shard_id s) = Some v"
    then show "shard_step self a s (acc, lg) = Inr (acc + v, lg)"
      using p be by (simp add: shard_step_parses contribution_def missing_def in_window_def)
  }
  {
    assume "b = from_date a \<and> e = to_date a \<and> shards_size_list self (shard_id s) = Some v"
    then show "shard_step self a s (acc, lg) = Inr (acc + v, lg)"
      using p be by (simp add: shard_step_parses contribution_def missing_def in_window_def)
  }
qed

theorem window_containment_witness:
  "start_time shard_10 = Some (2020, 1, 1, 0, 0, 0) \<and> end_time shard_10 = Some (2020, 2, 1, 0, 0, 0)
   \<and> in_window (year_2020 False) shard_10
   \<and> shards_size_list (one_shard_on_disk None) (shard_id shard_10) = Some 2048
   \<and> shard_step (one_shard_on_disk None) (year_2020 False) shard_10 (0, []) = Inr (2048, [])
   \<and> start_time shard_11 = Some (2021, 1, 1, 0, 0, 0) \<and> end_time shard_11 = Some (2021, 2, 1, 0, 0, 0)
   \<and> to_date (year_2020 False) < (2021, 2, 1, 0, 0, 0)
   \<and> shard_step (one_shard_on_disk None) (year_2020 False) shard_11 (2048, []) = Inr (2048, [])
   \<and> list_all parses [shard_10, shard_11]
   \<and> shard_loop (one_shard_on_disk None) (year_2020 False) [shard_10, shard_11] (0, [])
       = Inr (2048, [])"
  using
    window_containment [of shard_10 "(2020, 1, 1, 0, 0, 0)" "(2020, 2, 1, 0, 0, 0)"
      "year_2020 False" "one_shard_on_disk None" 0 "[]" 2048 "[shard_10, shard_11]"]
    window_containment [of shard_11 "(2021, 1, 1, 0, 0, 0)" "(2021, 2, 1, 0, 0, 0)"
      "year_2020 False" "one_shard_on_disk None" 2048 "[]" 0 "[]"]
  by (simp add: run_eval)

text \<open>
  Claim C7. A shard inside the window whose id is not in the size index does not make the
  aggregation raise: its turn leaves the size of the group as it was and records a debug
  message; the size of its group is the one the group has without it, and so are the
  lines printed and the grand total of the whole run.
\<close>

theorem missing_shard_contributes_zero:
  assumes "in_window a s" and "shards_size_list self (shard_id s) = None"
  shows "shard_step self a s (acc, lg) = Inr (acc, lg @ [ShardMissing (shard_id s)])
     \<and> ((\<forall>x\<in>set (xs @ ys). parses x) \<longrightarrow>
          (\<exists>lg1 lg2.
             shard_loop self a (xs @ s # ys) (0, lg)
               = Inr (sum_list (map (contribution self a) (xs @ ys)), lg1)
             \<and> ShardMissing (shard_id s) \<in> set lg1
             \<and> shard_loop self a (xs @ ys) (0, lg)
               = Inr (sum_list (map (contribution self a) (xs @ ys)), lg2)))
     \<and> (xs \<noteq> [] \<and> aggregate self a (gs1 @ (xs @ s # ys) # gs2) = Inr fin \<longrightarrow>
          (\<exists>fin'. aggregate self a (gs1 @ (xs @ ys) # gs2) = Inr fin' \<and> same_report fin fin'))"
proof (intro conjI impI)
  assume "xs \<noteq> [] \<and> aggregate self a (gs1 @ (xs @ s # ys) # gs2) = Inr fin"
  then show "\<exists>fin'. aggregate self a (gs1 @ (xs @ ys) # gs2) = Inr fin' \<and> same_report fin fin'"
    using aggregate_without_missing [OF assms] by blast
next
  have p: "parses s"
    using assms(1) by (auto simp: in_window_def parses_def split: option.splits)
  have c: "contribution self a s = 0" and m: "missing self a s = [ShardMissing (shard_id s)]"
    using assms by (simp_all add: contribution_def missing_def)
  show "shard_step self a s (acc, lg) = Inr (acc, lg @ [ShardMissing (shard_id s)])"
    using p c m by (simp add: shard_step_parses)
next
  have p: "parses s"
    using assms(1) by (auto simp: in_window_def parses_def split: option.splits)
  have c: "contribution self a s = 0" and m: "missing self a s = [ShardMissing (shard_id s)]"
    using assms by (simp_all add: contribution_def missing_def)
  assume rest: "\<forall>x\<in>set (xs @ ys). parses x"
  then have all: "\<forall>x\<in>set (xs @ s # ys). parses x" using p by auto
  have "shard_loop self a (xs @ s # ys) (0, lg)
          = Inr (sum_list (map (contribution self a) (xs @ ys)),
                 lg @ concat (map (missing self a) (xs @ s # ys)))"
    using shard_loop_parses [OF all, of self a 0 lg] c by simp
  moreover have "ShardMissing (shard_id s) \<in> set (lg @ concat (map (missing self a) (xs @ s # ys)))"
    using m by simp
  moreover have "shard_loop self a (xs @ ys) (0, lg)
          = Inr (sum_list (map (contribution self a) (xs @ ys)),
                 lg @ concat (map (missing self a) (xs @ ys)))"
    using shard_loop_parses [OF rest, of self a 0 lg] by simp
  ultimately show "\<exists>lg1 lg2.
             shard_loop self a (xs @ s # ys) (0, lg)
               = Inr (sum_list (map (contribution self a) (xs @ ys)), lg1)
             \<and> ShardMissing (shard_id s) \<in> set lg1
             \<and> shard_loop self a (xs @ ys) (0, lg)
               = Inr (sum_list (map (contribution self a) (xs @ ys)), lg2)"
    by blast
qed

theorem missing_shard_contributes_zero_witness:
  "in_window (year_2020 False) shard_12
   \<and> shards_size_list (one_shard_on_disk None) (shard_id shard_12) = None
   \<and> shard_step (one_shard_on_disk None) (year_2020 False) shard_12 (2048, [])
       = Inr (2048, [ShardMissing 12])
   \<and> list_all parses ([shard_10] @ [shard_11])
   \<and> (\<exists>lg1 lg2.
         shard_loop (one_shard_on_disk None) (year_2020 False) ([shard_10] @ shard_12 # [shard_11]) (0, [])
           = Inr (2048, lg1)
         \<and> ShardMissing 12 \<in> set lg1
         \<and> shard_loop (one_shard_on_disk None) (year_2020 False) ([shard_10] @ [shard_11]) (0, [])
           = Inr (2048, lg2))
   \<and> aggregate (one_shard_on_disk None) (year_2020 True)
         ([] @ ([shard_10] @ shard_12 # [shard_11]) # [])
       = Inr \<lparr>database = Some ''metrics'', total_size = 2048,
              printed = [DatabaseSizeResult ''2.0 KB: metrics'' ''metrics'' 2048,
                         GrandTotal ''TOTAL: 2.0 KB'' 2048],
              debug_log = [ShardMissing 12]\<rparr>
   \<and> (\<exists>fin'. aggregate (one_shard_on_disk None) (year_2020 True)
                  ([] @ ([shard_10] @ [shard_11]) # []) = Inr fin'
         \<and> same_report \<lparr>database = Some ''metrics'', total_size = 2048,
              printed = [DatabaseSizeResult ''2.0 KB: metrics'' ''metrics'' 2048,
                         GrandTotal ''TOTAL: 2.0 KB'' 2048],
              debug_log = [ShardMissing 12]\<rparr> fin')"
proof -
  have r: "aggregate (one_shard_on_disk None) (year_2020 True)
         ([] @ ([shard_10] @ shard_12 # [shard_11]) # [])
       = Inr \<lparr>database = Some ''metrics'', total_size = 2048,
              printed = [DatabaseSizeResult ''2.0 KB: metrics'' ''metrics'' 2048,
                         GrandTotal ''TOTAL: 2.0 KB'' 2048],
              debug_log = [ShardMissing 12]\<rparr>"
    by (simp add: run_eval size_str_eval)
  have w: "in_window (year_2020 False) shard_12"
    by (simp add: run_eval)
  have n: "shards_size_list (one_shard_on_disk None) (shard_id shard_12) = None"
    by (simp add: run_eval)
  show ?thesis
    using w n r
      missing_shard_contributes_zero [OF w n, of 2048 "[]" "[shard_10]" "[shard_11]" "[]" "[]"
        "\<lparr>database = Some ''metrics'', total_size = 2048,
              printed = [DatabaseSizeResult ''2.0 KB: metrics'' ''metrics'' 2048,
                         GrandTotal ''TOTAL: 2.0 KB'' 2048],
              debug_log = [ShardMissing 12]\<rparr>"]
    by (simp add: run_eval size_str_eval)
qed




text \<open>
  Claim C5, as the code has it. With no database filter and with \<^verbatim>\<open>--full\<close>, the sizes on
  the lines printed for the databases add up to the grand total of a run that completes.
\<close>

theorem emitted_sum_is_total:
  assumes "aggregate self a groups = Inr fin" and "\<not> filter_set self" and "full a"
  shows "emitted_sum (printed fin) = total_size fin"
proof -
  obtain st where loop: "group_loop self a groups init_state = Inr st"
    and tot: "total_size fin = total_size st"
    and pr: "\<exists>t. printed fin = printed st @ [GrandTotal (''TOTAL: '' @ t) (total_size st)]"
    using aggregate_Inr [OF assms(1)] assms(2) by auto
  have "emitted_sum (printed st) - emitted_sum (printed init_state)
          = total_size st - total_size init_state"
    using assms(3) assms(2) loop by (rule group_loop_sum)
  then have "emitted_sum (printed st) = total_size st"
    by (simp add: init_state_def emitted_sum_def)
  moreover have "emitted_sum (printed fin) = emitted_sum (printed st)"
    using pr by (auto simp: emitted_sum_def)
  ultimately show ?thesis using tot by simp
qed

theorem emitted_sum_is_total_witness:
  "aggregate (one_shard_on_disk None) (year_2020 True) [[shard_10, shard_11], [shard_12]]
     = Inr \<lparr>database = Some ''metrics'', total_size = 2048,
            printed = [DatabaseSizeResult ''2.0 KB: metrics'' ''metrics'' 2048,
                       DatabaseSizeResult ''0B: metrics'' ''metrics'' 0,
                       GrandTotal ''TOTAL: 2.0 KB'' 2048],
            debug_log = [ShardMissing 12]\<rparr>
   \<and> \<not> filter_set (one_shard_on_disk None) \<and> full (year_2020 True)
   \<and> emitted_sum [DatabaseSizeResult ''2.0 KB: metrics'' ''metrics'' 2048,
                    DatabaseSizeResult ''0B: metrics'' ''metrics'' 0,
                    GrandTotal ''TOTAL: 2.0 KB'' 2048] = 2048"
proof -
  have r: "aggregate (one_shard_on_disk None) (year_2020 True) [[shard_10, shard_11], [shard_12]]
     = Inr \<lparr>database = Some ''metrics'', total_size = 2048,
            printed = [DatabaseSizeResult ''2.0 KB: metrics'' ''metrics'' 2048,
                       DatabaseSizeResult ''0B: metrics'' ''metrics'' 0,
                       GrandTotal ''TOTAL: 2.0 KB'' 2048],
            debug_log = [ShardMissing 12]\<rparr>"
    by (simp add: run_eval size_str_eval)
  have f: "\<not> filter_set (one_shard_on_disk None)" and u: "full (year_2020 True)"
    by (simp_all add: run_eval)
  show ?thesis using r f u emitted_sum_is_total [OF r f u] by simp
qed

text \<open>
  Claim C5 as stated fails: with no database filter and without \<^verbatim>\<open>--full\<close> no line is
  printed for a database, so the sum over those lines is 0 while the grand total is 2048.
\<close>

theorem emitted_sum_without_full_counterexample:
  "aggregate (one_shard_on_disk None) (year_2020 False) [[shard_10, shard_11]]
     = Inr \<lparr>database = Some ''metrics'', total_size = 2048,
            printed = [GrandTotal ''TOTAL: 2.0 KB'' 2048], debug_log = []\<rparr>
   \<and> \<not> filter_set (one_shard_on_disk None)
   \<and> emitted_sum [GrandTotal ''TOTAL: 2.0 KB'' 2048] = 0"
  by (simp add: run_eval size_str_eval)

text \<open>
  Claim C2 against the code. An empty group is not skipped. When it comes first, with
  \<^verbatim>\<open>--full\<close> or with a database filter, the run raises \<^verbatim>\<open>UnboundLocalError\<close>; when it comes
  after another group, with \<^verbatim>\<open>--full\<close>, a line is printed for it under the name of the
  database of the group before.
\<close>

theorem empty_group_not_skipped:
  "aggregate (one_shard_on_disk None) (year_2020 True) [[]] = Inl UnboundLocalError
   \<and> aggregate (one_shard_on_disk (Some ''metrics'')) (year_2020 False) [[], [shard_10]]
       = Inl UnboundLocalError
   \<and> aggregate (one_shard_on_disk None) (year_2020 True) [[shard_10], []]
       = Inr \<lparr>database = Some ''metrics'', total_size = 2048,
              printed = [DatabaseSizeResult ''2.0 KB: metrics'' ''metrics'' 2048,
                         DatabaseSizeResult ''0B: metrics'' ''metrics'' 0,
                         GrandTotal ''TOTAL: 2.0 KB'' 2048],
              debug_log = []\<rparr>"
  by (simp add: run_eval size_str_eval)

text \<open>
  The whole of \<^verbatim>\<open>shards\<close> on the small run: one line of remote output, ended by the
  terminal's carriage return and line feed, and one group; only the total is printed.
\<close>

lemma shards_scenario:
  "map_sum id (map line_text \<circ> printed)
     (shards \<lparr>influx_db = None, shards_size_list = Map.empty\<rparr> (year_2020 False)
        [''2048   /var/lib/influxdb/data/metrics/default/10'' @ [CHR 0x0D, CHR 0x0A]]
        [[shard_10, shard_11]])
   = Inr [''TOTAL: 2.0 KB'']"
  by (simp add: shards_def parse_du_def du_regexp_def is_digit_def is_space_def
        int_of_str_def digit_val_def run_eval size_str_eval)

end
